theory Spec2Isabelle
  imports Main "HOL-Library.AList" "HOL-Library.Product_Lexorder"
begin

section \<open>Python values shared by all modules\<close>

text \<open>
  A Python \<open>dict\<close> keeps its keys in insertion order, so it is an association list:
  \<open>d[k] = v\<close> on a present key replaces the value in place and on a new key appends
  the pair (\<open>AList.update\<close>), \<open>del d[k]\<close> drops the pair (\<open>AList.delete\<close>),
  \<open>k in d\<close> is membership among the first components, \<open>d.get(k, default)\<close> never
  raises and \<open>d[k]\<close> raises \<open>KeyError\<close> on a missing key.  A \<open>dict\<close> never holds a
  key twice: \<open>distinct (map fst d)\<close>.
\<close>

datatype error = KeyError | IndexError

type_synonym ('k, 'v) dict = "('k \<times> 'v) list"

definition dict_keys :: "('k, 'v) dict \<Rightarrow> 'k list" where
  "dict_keys d = map fst d"

definition dict_in :: "'k \<Rightarrow> ('k, 'v) dict \<Rightarrow> bool" where
  "dict_in k d = (k \<in> set (dict_keys d))"

definition dict_get :: "('k, 'v) dict \<Rightarrow> 'k \<Rightarrow> 'v \<Rightarrow> 'v" where
  "dict_get d k dflt = (case map_of d k of None \<Rightarrow> dflt | Some v \<Rightarrow> v)"

definition dict_getitem :: "('k, 'v) dict \<Rightarrow> 'k \<Rightarrow> error + 'v" where
  "dict_getitem d k = (case map_of d k of None \<Rightarrow> Inl KeyError | Some v \<Rightarrow> Inr v)"

definition dict_setitem :: "('k, 'v) dict \<Rightarrow> 'k \<Rightarrow> 'v \<Rightarrow> ('k, 'v) dict" where
  "dict_setitem d k v = AList.update k v d"

definition dict_delitem :: "('k, 'v) dict \<Rightarrow> 'k \<Rightarrow> ('k, 'v) dict" where
  "dict_delitem d k = AList.delete k d"

section \<open>The Graph class (1_basics/graph_class.py)\<close>

record 'a graph =
  adjacency_list :: "('a, 'a list) dict"
  directed :: bool

definition new_graph :: "bool \<Rightarrow> 'a graph" where
  "new_graph d = \<lparr>adjacency_list = [], directed = d\<rparr>"

definition add_node :: "'a graph \<Rightarrow> 'a \<Rightarrow> bool \<times> 'a graph" where
  "add_node g node =
     (if \<not> dict_in node (adjacency_list g)
      then (True, g\<lparr>adjacency_list := dict_setitem (adjacency_list g) node []\<rparr>)
      else (False, g))"

text \<open>
  \<open>add_edge\<close> reads \<open>self.adjacency_list[from_node]\<close> and, for an undirected graph,
  \<open>self.adjacency_list[to_node]\<close>; both reads are subscripts and are modelled with
  their \<open>KeyError\<close> branch.  \<open>lst.append(x)\<close> on the stored list is the update of the
  entry with the extended list.
\<close>

definition add_edge :: "'a graph \<Rightarrow> 'a \<Rightarrow> 'a \<Rightarrow> error + (bool \<times> 'a graph)" where
  "add_edge g from_node to_node =
     (let g1 = snd (add_node g from_node);
          g2 = snd (add_node g1 to_node)
      in case dict_getitem (adjacency_list g2) from_node of
           Inl e \<Rightarrow> Inl e
         | Inr ns \<Rightarrow>
             if to_node \<notin> set ns then
               (let g3 = g2\<lparr>adjacency_list :=
                              dict_setitem (adjacency_list g2) from_node (ns @ [to_node])\<rparr>
                in if \<not> directed g3 then
                     (case dict_getitem (adjacency_list g3) to_node of
                        Inl e \<Rightarrow> Inl e
                      | Inr ms \<Rightarrow>
                          Inr (True, g3\<lparr>adjacency_list :=
                                 dict_setitem (adjacency_list g3) to_node (ms @ [from_node])\<rparr>))
                   else Inr (True, g3))
             else Inr (False, g2))"

definition has_edge :: "'a graph \<Rightarrow> 'a \<Rightarrow> 'a \<Rightarrow> bool" where
  "has_edge g from_node to_node =
     (dict_in from_node (adjacency_list g) \<and>
      to_node \<in> set (dict_get (adjacency_list g) from_node []))"

text \<open>
  \<open>lst.remove(x)\<close> deletes the first occurrence of \<open>x\<close> and raises only when \<open>x\<close> is
  absent.  Every call of it in the class stands under a membership test on the same
  list (\<open>has_edge\<close>, \<open>node in ...\<close>), where it is exactly \<open>remove1\<close>.
\<close>

definition remove_edge :: "'a graph \<Rightarrow> 'a \<Rightarrow> 'a \<Rightarrow> bool \<times> 'a graph" where
  "remove_edge g from_node to_node =
     (if has_edge g from_node to_node then
        (let g1 = g\<lparr>adjacency_list := dict_setitem (adjacency_list g) from_node
                        (remove1 to_node (dict_get (adjacency_list g) from_node []))\<rparr>;
             g2 = (if \<not> directed g1 \<and> has_edge g1 to_node from_node
                   then g1\<lparr>adjacency_list := dict_setitem (adjacency_list g1) to_node
                             (remove1 from_node (dict_get (adjacency_list g1) to_node []))\<rparr>
                   else g1)
         in (True, g2))
      else (False, g))"

definition remove_node :: "'a graph \<Rightarrow> 'a \<Rightarrow> bool \<times> 'a graph" where
  "remove_node g node =
     (if \<not> dict_in node (adjacency_list g) then (False, g)
      else (True, g\<lparr>adjacency_list :=
              map (\<lambda>(other_node, ns).
                     (other_node, if node \<in> set ns then remove1 node ns else ns))
                  (dict_delitem (adjacency_list g) node)\<rparr>))"

definition get_neighbors :: "'a graph \<Rightarrow> 'a \<Rightarrow> 'a list" where
  "get_neighbors g node = dict_get (adjacency_list g) node []"

text \<open>
  \<open>get_nodes\<close> returns \<open>list(nodes)\<close> of a Python \<open>set\<close>: the elements are determined,
  their order is not, so the result is modelled by the set of its elements.
\<close>

definition get_nodes :: "'a graph \<Rightarrow> 'a set" where
  "get_nodes g =
     set (dict_keys (adjacency_list g)) \<union> (\<Union>ns \<in> set (map snd (adjacency_list g)). set ns)"

definition get_edges :: "'a graph \<Rightarrow> ('a \<times> 'a) list" where
  "get_edges g =
     concat (map (\<lambda>(from_node, neighbors). map (\<lambda>to_node. (from_node, to_node)) neighbors)
                 (adjacency_list g))"

text \<open>
  \<open>get_degree\<close> returns the integer \<open>0\<close>, a dict with the keys \<open>"in"\<close>, \<open>"out"\<close> and
  \<open>"total"\<close>, or the integer out-degree.  The counters are lengths and counts, hence
  naturals.
\<close>

datatype degree_result = DegInt nat | DegDict "(string, nat) dict"

definition get_degree :: "'a graph \<Rightarrow> 'a \<Rightarrow> degree_result" where
  "get_degree g node =
     (if node \<notin> get_nodes g then DegInt 0
      else
        (let out_degree = length (dict_get (adjacency_list g) node []);
             in_degree = length (filter (\<lambda>(other_node, neighbors). node \<in> set neighbors)
                                        (adjacency_list g))
         in if directed g
            then DegDict [(''in'', in_degree), (''out'', out_degree),
                          (''total'', in_degree + out_degree)]
            else DegInt out_degree))"

text \<open>
  The graphs a program can hold: the constructor's empty graph, changed by the public
  mutators only.
\<close>

inductive built :: "'a graph \<Rightarrow> bool" where
  built_new: "built (new_graph d)"
| built_add_node: "built g \<Longrightarrow> built (snd (add_node g n))"
| built_add_edge: "built g \<Longrightarrow> add_edge g u v = Inr (b, g') \<Longrightarrow> built g'"
| built_remove_edge: "built g \<Longrightarrow> built (snd (remove_edge g u v))"
| built_remove_node: "built g \<Longrightarrow> built (snd (remove_node g n))"

text \<open>
  The adjacency list read as a map, and the class invariant of the graphs built through
  the mutators: keys are distinct, every neighbour is a key, a list holds a node at most
  once (apart from the self-loops of an undirected graph, which are stored twice), and an
  undirected graph stores every edge between two nodes in both lists.
\<close>

definition adj_map :: "'a graph \<Rightarrow> 'a \<rightharpoonup> 'a list" where
  "adj_map g = map_of (adjacency_list g)"

definition closed_adj :: "('a \<rightharpoonup> 'a list) \<Rightarrow> bool" where
  "closed_adj m \<longleftrightarrow> (\<forall>k ns x. m k = Some ns \<longrightarrow> x \<in> set ns \<longrightarrow> m x \<noteq> None)"

definition simple_adj :: "bool \<Rightarrow> ('a \<rightharpoonup> 'a list) \<Rightarrow> bool" where
  "simple_adj d m \<longleftrightarrow>
     (\<forall>k ns n. m k = Some ns \<longrightarrow> (d \<or> n \<noteq> k) \<longrightarrow> count_list ns n \<le> 1)"

definition sym_adj :: "('a \<rightharpoonup> 'a list) \<Rightarrow> bool" where
  "sym_adj m \<longleftrightarrow>
     (\<forall>u v us vs. u \<noteq> v \<longrightarrow> m u = Some us \<longrightarrow> m v = Some vs \<longrightarrow>
           (v \<in> set us \<longleftrightarrow> u \<in> set vs))"

definition graph_inv :: "'a graph \<Rightarrow> bool" where
  "graph_inv g \<longleftrightarrow>
     distinct (dict_keys (adjacency_list g)) \<and>
     closed_adj (adj_map g) \<and>
     simple_adj (directed g) (adj_map g) \<and>
     (\<not> directed g \<longrightarrow> sym_adj (adj_map g))"

section \<open>The Union-Find class (3_algorithms/connected_components.py)\<close>

text \<open>
  \<open>UnionFind\<close> is the class local to \<open>union_find_components\<close>.  Its three fields
  are two dicts and a counter.  \<open>find\<close> is recursive and follows the parent
  pointers; on a parent dict with a cycle it never returns, so it is a partial
  function: \<open>None\<close> is "does not return", \<open>Some (Inl KeyError)\<close> is the exception of
  a subscript on a missing node, \<open>Some (Inr (root, parent'))\<close> is the returned root
  together with the parent dict after path compression.
\<close>

record 'a union_find =
  parent :: "('a, 'a) dict"
  rank :: "('a, nat) dict"
  components :: int

definition uf_init :: "'a list \<Rightarrow> 'a union_find" where
  "uf_init nodes =
     \<lparr>parent = map (\<lambda>node. (node, node)) nodes,
      rank = map (\<lambda>node. (node, 0)) nodes,
      components = int (length nodes)\<rparr>"

partial_function (option) find_parent ::
  "('a, 'a) dict \<Rightarrow> 'a \<Rightarrow> (error + 'a \<times> ('a, 'a) dict) option" where
  "find_parent par node =
     (case dict_getitem par node of
        Inl e \<Rightarrow> Some (Inl e)
      | Inr p \<Rightarrow>
          if p \<noteq> node then
            Option.bind (find_parent par p)
              (\<lambda>res. case res of
                   Inl e \<Rightarrow> Some (Inl e)
                 | Inr (root, par') \<Rightarrow> Some (Inr (root, dict_setitem par' node root)))
          else Some (Inr (p, par)))"

definition find :: "'a union_find \<Rightarrow> 'a \<Rightarrow> (error + 'a \<times> 'a union_find) option" where
  "find uf node =
     map_option (map_sum id (\<lambda>(root, par'). (root, uf\<lparr>parent := par'\<rparr>)))
       (find_parent (parent uf) node)"

definition union :: "'a union_find \<Rightarrow> 'a \<Rightarrow> 'a \<Rightarrow> (error + bool \<times> 'a union_find) option" where
  "union uf node1 node2 =
     (case find uf node1 of
        None \<Rightarrow> None
      | Some (Inl e) \<Rightarrow> Some (Inl e)
      | Some (Inr (root1, uf1)) \<Rightarrow>
         (case find uf1 node2 of
            None \<Rightarrow> None
          | Some (Inl e) \<Rightarrow> Some (Inl e)
          | Some (Inr (root2, uf2)) \<Rightarrow>
              if root1 \<noteq> root2 then
                (case (dict_getitem (rank uf2) root1, dict_getitem (rank uf2) root2) of
                   (Inl e, _) \<Rightarrow> Some (Inl e)
                 | (Inr _, Inl e) \<Rightarrow> Some (Inl e)
                 | (Inr rank1, Inr rank2) \<Rightarrow>
                     (let uf3 =
                        (if rank1 < rank2
                         then uf2\<lparr>parent := dict_setitem (parent uf2) root1 root2\<rparr>
                         else if rank1 > rank2
                         then uf2\<lparr>parent := dict_setitem (parent uf2) root2 root1\<rparr>
                         else uf2\<lparr>parent := dict_setitem (parent uf2) root2 root1,
                                  rank := dict_setitem (rank uf2) root1 (rank1 + 1)\<rparr>)
                      in Some (Inr (True, uf3\<lparr>components := components uf3 - 1\<rparr>))))
              else Some (Inr (False, uf2))))"

text \<open>
  The root a node leads to, as a relation on the parent map: a node that is its own
  parent is a root, any other node has the root of its parent.
\<close>

inductive rep_rel :: "('a \<rightharpoonup> 'a) \<Rightarrow> 'a \<Rightarrow> 'a \<Rightarrow> bool" for m where
  rep_root: "m x = Some x \<Longrightarrow> rep_rel m x x"
| rep_step: "m x = Some y \<Longrightarrow> y \<noteq> x \<Longrightarrow> rep_rel m y r \<Longrightarrow> rep_rel m x r"

definition root_of :: "'a union_find \<Rightarrow> 'a \<Rightarrow> 'a \<Rightarrow> bool" where
  "root_of uf x r = rep_rel (map_of (parent uf)) x r"

definition same_root :: "'a union_find \<Rightarrow> 'a \<Rightarrow> 'a \<Rightarrow> bool" where
  "same_root uf x y = (\<exists>r. root_of uf x r \<and> root_of uf y r)"

text \<open>
  The invariant of the structure: every node leads to a root (so the parent pointers
  have no cycle and stay inside the structure), and every node has a rank.
\<close>

definition uf_inv :: "'a union_find \<Rightarrow> bool" where
  "uf_inv uf \<longleftrightarrow>
     (\<forall>x \<in> dom (map_of (parent uf)). \<exists>r. root_of uf x r) \<and>
     dom (map_of (rank uf)) = dom (map_of (parent uf))"

section \<open>Traversals (2_traversal)\<close>

text \<open>
  The algorithm modules take the graph as a plain dict from a node to the list of its
  neighbours and read it with \<open>graph.get(node, [])\<close>, so a node that is no key has no
  neighbours.  \<open>all_nodes\<close> are the keys together with every node named in a list.
\<close>

type_synonym 'a adjacency = "('a, 'a list) dict"

definition all_nodes :: "'a adjacency \<Rightarrow> 'a set" where
  "all_nodes graph = set (dict_keys graph) \<union> (\<Union>ns \<in> set (map snd graph). set ns)"



lemma neighbours_in_all_nodes: "set (dict_get graph node []) \<subseteq> all_nodes graph"
proof (cases "map_of graph node")
  case None
  then show ?thesis by (simp add: dict_get_def)
next
  case (Some ns)
  then have "(node, ns) \<in> set graph" by (rule map_of_SomeD)
  then have "ns \<in> set (map snd graph)" by force
  then show ?thesis using Some by (auto simp: dict_get_def all_nodes_def)
qed

lemma finite_all_nodes: "finite (all_nodes graph)"
  by (simp add: all_nodes_def)

lemma card_less_by_element:
  assumes "finite B" "x \<in> B" "A \<subseteq> B - {x}"
  shows "card A < card B"
proof -
  have "A \<subset> B" using assms(2,3) by blast
  then show ?thesis by (rule psubset_card_mono[OF assms(1)])
qed

subsection \<open>Recursive depth-first search (dfs_recursive.py)\<close>

text \<open>
  \<open>simple_dfs_recursive\<close> adds the node to the shared \<open>visited\<close> set and runs the
  \<open>for\<close> loop over its neighbours, calling itself on each neighbour that is not yet
  visited at that moment.  The set is passed and returned; the loop is the second
  function.  A call without \<open>visited\<close> starts from the empty set.
\<close>

function (domintros)
  simple_dfs_recursive :: "'a adjacency \<Rightarrow> 'a \<Rightarrow> 'a set \<Rightarrow> 'a set" and
  simple_dfs_recursive_for :: "'a adjacency \<Rightarrow> 'a list \<Rightarrow> 'a set \<Rightarrow> 'a set"
where
  "simple_dfs_recursive graph node visited =
     simple_dfs_recursive_for graph (dict_get graph node []) (insert node visited)"
| "simple_dfs_recursive_for graph [] visited = visited"
| "simple_dfs_recursive_for graph (neighbor # rest) visited =
     simple_dfs_recursive_for graph rest
       (if neighbor \<notin> visited then simple_dfs_recursive graph neighbor visited else visited)"
  by pat_completeness auto

lemma simple_dfs_recursive_grows:
  "simple_dfs_recursive_simple_dfs_recursive_for_dom (Inl (graph, node, visited)) \<Longrightarrow>
     visited \<subseteq> simple_dfs_recursive graph node visited"
  "simple_dfs_recursive_simple_dfs_recursive_for_dom (Inr (graph, ns, visited)) \<Longrightarrow>
     visited \<subseteq> simple_dfs_recursive_for graph ns visited"
proof (induction graph node visited and graph ns visited
    rule: simple_dfs_recursive_simple_dfs_recursive_for.pinduct)
  case (1 graph node visited)
  then show ?case by (auto simp: simple_dfs_recursive.psimps)
next
  case (2 graph visited)
  then show ?case by (simp add: simple_dfs_recursive_for.psimps)
next
  case (3 graph neighbor rest visited)
  then show ?case by (auto simp: simple_dfs_recursive_for.psimps split: if_splits)
qed

definition dfs_measure1 ::
  "'a adjacency \<times> 'a \<times> 'a set + 'a adjacency \<times> 'a list \<times> 'a set \<Rightarrow> nat" where
  "dfs_measure1 a =
     (case a of
        Inl (graph, node, visited) \<Rightarrow> card (all_nodes graph - insert node visited) + 1
      | Inr (graph, ns, visited) \<Rightarrow> card ((all_nodes graph \<union> set ns) - visited))"

definition dfs_measure2 ::
  "'a adjacency \<times> 'a \<times> 'a set + 'a adjacency \<times> 'a list \<times> 'a set \<Rightarrow> nat" where
  "dfs_measure2 a = (case a of Inl _ \<Rightarrow> 0 | Inr (graph, ns, visited) \<Rightarrow> length ns + 1)"

lemma dfs_measure_call:
  "neighbor \<notin> visited \<Longrightarrow>
   card (all_nodes graph - insert neighbor visited) + 1
     \<le> card ((all_nodes graph \<union> set (neighbor # rest)) - visited)"
proof -
  assume nv: "neighbor \<notin> visited"
  let ?A = "all_nodes graph - insert neighbor visited"
  have fin: "finite ((all_nodes graph \<union> set (neighbor # rest)) - visited)"
    by (simp add: finite_all_nodes)
  have "insert neighbor ?A \<subseteq> (all_nodes graph \<union> set (neighbor # rest)) - visited"
    using nv by auto
  then have "card (insert neighbor ?A) \<le> card ((all_nodes graph \<union> set (neighbor # rest)) - visited)"
    using fin by (rule card_mono[rotated])
  moreover have "card (insert neighbor ?A) = card ?A + 1"
    by (simp add: finite_all_nodes)
  ultimately show ?thesis by simp
qed

lemma dfs_measure_next:
  "visited \<subseteq> visited' \<Longrightarrow>
   card ((all_nodes graph \<union> set rest) - visited')
     \<le> card ((all_nodes graph \<union> set (neighbor # rest)) - visited)"
  by (rule card_mono) (auto simp: finite_all_nodes)

termination simple_dfs_recursive
proof (relation "measures [dfs_measure1, dfs_measure2]", goal_cases)
  case 1
  show ?case by simp
next
  case (2 graph node visited)
  have "all_nodes graph \<union> set (dict_get graph node []) = all_nodes graph"
    using neighbours_in_all_nodes[of graph node] by auto
  then show ?case by (simp add: dfs_measure1_def)
next
  case (3 graph neighbor rest visited)
  then show ?case
    using dfs_measure_call[of neighbor visited graph rest]
    by (auto simp: dfs_measure1_def dfs_measure2_def)
next
  case (4 graph neighbor rest visited)
  have "visited \<subseteq> simple_dfs_recursive graph neighbor visited" if "neighbor \<notin> visited"
    by (rule simple_dfs_recursive_grows(1)) (use 4 that in auto)
  then have "visited \<subseteq> (if neighbor \<notin> visited then simple_dfs_recursive graph neighbor visited else visited)"
    by simp
  from dfs_measure_next[OF this, of graph rest neighbor]
  show ?case by (auto simp: dfs_measure1_def dfs_measure2_def)
qed

subsection \<open>Iterative depth-first search (dfs_iterative.py)\<close>



subsection \<open>Breadth-first search (bfs.py)\<close>





section \<open>Unweighted shortest path (bfs_shortest_path, bfs_find_shortest_path, Graph.find_path)\<close>

text \<open>
  The three path finders have the same body: the queue holds pairs of a node and the
  path that reached it, the inner \<open>for\<close> loop returns \<open>path + [neighbor]\<close> as soon as
  a neighbour is the target, and otherwise marks and enqueues the neighbours that are
  not yet visited.  The inner loop either returns a path (\<open>Inl\<close>) or finishes with
  the new \<open>visited\<close> and \<open>queue\<close> (\<open>Inr\<close>).  The function result \<open>None\<close> is
  Python's \<open>None\<close>.
\<close>

fun bfs_shortest_path_for ::
  "'a \<Rightarrow> 'a list \<Rightarrow> 'a list \<Rightarrow> 'a set \<times> ('a \<times> 'a list) list
     \<Rightarrow> 'a list + 'a set \<times> ('a \<times> 'a list) list" where
  "bfs_shortest_path_for target path [] (visited, queue) = Inr (visited, queue)"
| "bfs_shortest_path_for target path (neighbor # rest) (visited, queue) =
     (if neighbor = target then Inl (path @ [neighbor])
      else if neighbor \<notin> visited
      then bfs_shortest_path_for target path rest
             (insert neighbor visited, queue @ [(neighbor, path @ [neighbor])])
      else bfs_shortest_path_for target path rest (visited, queue))"

lemma bfs_shortest_path_for_effect:
  "\<exists>new. bfs_shortest_path_for target path ns (visited, queue) =
           (if target \<in> set ns then Inl (path @ [target])
            else Inr (visited \<union> set new, queue @ map (\<lambda>w. (w, path @ [w])) new)) \<and>
         set new \<subseteq> set ns \<and> set new \<inter> visited = {} \<and>
         (target \<notin> set ns \<longrightarrow> set ns \<subseteq> visited \<union> set new)"
proof (induction ns arbitrary: visited queue)
  case Nil
  show ?case by (rule exI[of _ "[]"]) simp
next
  case (Cons n ns)
  show ?case
  proof (cases "n = target")
    case True
    show ?thesis by (rule exI[of _ "[]"]) (simp add: True)
  next
    case nt: False
    show ?thesis
    proof (cases "n \<notin> visited")
      case True
      from Cons[of "insert n visited" "queue @ [(n, path @ [n])]"] obtain new where
        new: "bfs_shortest_path_for target path ns (insert n visited, queue @ [(n, path @ [n])]) =
           (if target \<in> set ns then Inl (path @ [target])
            else Inr (insert n visited \<union> set new,
                      (queue @ [(n, path @ [n])]) @ map (\<lambda>w. (w, path @ [w])) new))"
          "set new \<subseteq> set ns" "set new \<inter> insert n visited = {}"
          "target \<notin> set ns \<longrightarrow> set ns \<subseteq> insert n visited \<union> set new" by blast
      show ?thesis
        by (rule exI[of _ "n # new"]) (use True nt new in auto)
    next
      case False
      from Cons[of visited queue] obtain new where
        "bfs_shortest_path_for target path ns (visited, queue) =
           (if target \<in> set ns then Inl (path @ [target])
            else Inr (visited \<union> set new, queue @ map (\<lambda>w. (w, path @ [w])) new))"
          "set new \<subseteq> set ns" "set new \<inter> visited = {}"
          "target \<notin> set ns \<longrightarrow> set ns \<subseteq> visited \<union> set new" by blast
      then show ?thesis
        by (intro exI[of _ new]) (use False nt in auto)
    qed
  qed
qed

function bfs_shortest_path_while ::
  "'a adjacency \<Rightarrow> 'a \<Rightarrow> ('a \<times> 'a list) list \<Rightarrow> 'a set \<Rightarrow> 'a list option" where
  "bfs_shortest_path_while graph target [] visited = None"
| "bfs_shortest_path_while graph target ((node, path) # queue) visited =
     (case bfs_shortest_path_for target path (dict_get graph node []) (visited, queue) of
        Inl found \<Rightarrow> Some found
      | Inr state \<Rightarrow> bfs_shortest_path_while graph target (snd state) (fst state))"
  by pat_completeness auto

termination
proof (relation "measures [\<lambda>(graph, target, queue, visited). card (all_nodes graph - visited),
                           \<lambda>(graph, target, queue, visited). length queue]", goal_cases)
  case 1
  show ?case by simp
next
  case (2 graph target node path queue visited state)
  from bfs_shortest_path_for_effect[of target path "dict_get graph node []" visited queue] 2
  obtain new where new: "fst state = visited \<union> set new"
    "snd state = queue @ map (\<lambda>w. (w, path @ [w])) new"
    "set new \<subseteq> set (dict_get graph node [])" "set new \<inter> visited = {}"
    by (auto split: if_splits)
  show ?case
  proof (cases "new = []")
    case True
    then show ?thesis using new by simp
  next
    case False
    then obtain y where y: "y \<in> set new" by (cases new) auto
    then have "y \<in> all_nodes graph - visited"
      using new(3,4) neighbours_in_all_nodes[of graph node] by auto
    moreover have "all_nodes graph - fst state \<subseteq> all_nodes graph - visited - {y}"
      using new(1) y by auto
    ultimately have "card (all_nodes graph - fst state) < card (all_nodes graph - visited)"
      by (intro card_less_by_element[of _ y]) (auto simp: finite_all_nodes)
    then show ?thesis by simp
  qed
qed

definition bfs_shortest_path :: "'a adjacency \<Rightarrow> 'a \<Rightarrow> 'a \<Rightarrow> 'a list option" where
  "bfs_shortest_path graph start target =
     (if start = target then Some [start]
      else bfs_shortest_path_while graph target [(start, [start])] {start})"

text \<open>
  \<open>bfs_find_shortest_path\<close> of path_finding.py is the same function under other
  variable names (\<open>current_node\<close> for \<open>node\<close>), and \<open>Graph.find_path\<close> is the same
  loop reading the neighbours through \<open>self.get_neighbors(node)\<close>, which is
  \<open>self.adjacency_list.get(node, [])\<close>; both run the loop above.
\<close>

definition bfs_find_shortest_path :: "'a adjacency \<Rightarrow> 'a \<Rightarrow> 'a \<Rightarrow> 'a list option" where
  "bfs_find_shortest_path graph start target =
     (if start = target then Some [start]
      else bfs_shortest_path_while graph target [(start, [start])] {start})"

definition find_path :: "'a graph \<Rightarrow> 'a \<Rightarrow> 'a \<Rightarrow> 'a list option" where
  "find_path g start end_node =
     (if start = end_node then Some [start]
      else bfs_shortest_path_while (adjacency_list g) end_node [(start, [start])] {start})"

text \<open>
  A path is a non-empty list of nodes in which each node is followed by one of its
  neighbours; it has one edge less than it has nodes.
\<close>

fun is_path :: "'a adjacency \<Rightarrow> 'a list \<Rightarrow> bool" where
  "is_path graph [] = False"
| "is_path graph [x] = True"
| "is_path graph (x # y # rest) = (y \<in> set (dict_get graph x []) \<and> is_path graph (y # rest))"

definition path_between :: "'a adjacency \<Rightarrow> 'a \<Rightarrow> 'a \<Rightarrow> 'a list \<Rightarrow> bool" where
  "path_between graph start target p = (is_path graph p \<and> hd p = start \<and> last p = target)"

text \<open>
  The loop invariant of the path finder, over a labelling \<open>D\<close> of the visited nodes
  by their level: the queue holds visited nodes with a path of their level, in
  non-decreasing level order, no label exceeds a queued level by more than one, and a
  visited node that is no longer queued has all its neighbours visited, at most one
  level up.  The target is never marked visited.
\<close>

definition bfs_path_inv ::
  "'a adjacency \<Rightarrow> 'a \<Rightarrow> 'a \<Rightarrow> ('a \<Rightarrow> nat) \<Rightarrow> ('a \<times> 'a list) list \<Rightarrow> 'a set \<Rightarrow> bool" where
  "bfs_path_inv graph start target D queue visited \<longleftrightarrow>
     start \<in> visited \<and> D start = 0 \<and> target \<notin> visited \<and>
     (\<forall>(v, p) \<in> set queue. v \<in> visited \<and> path_between graph start v p \<and> length p = Suc (D v)) \<and>
     sorted (map (\<lambda>(v, p). D v) queue) \<and>
     (\<forall>(v, p) \<in> set queue. \<forall>x \<in> visited. D x \<le> Suc (D v)) \<and>
     (\<forall>x \<in> visited. x \<in> fst ` set queue \<or>
        (\<forall>w \<in> set (dict_get graph x []). w \<in> visited \<and> D w \<le> Suc (D x)))"

section \<open>Dijkstra's algorithm (5_advanced/dijkstra.py)\<close>
















subsection \<open>Single target with early exit\<close>










section \<open>Graph class: invariant and properties\<close>

lemma dict_in_dom: "dict_in k d \<longleftrightarrow> k \<in> dom (map_of d)"
  by (simp add: dict_in_def dict_keys_def dom_map_of_conv_image_fst)

lemma map_of_setitem: "map_of (dict_setitem d k v) = (map_of d)(k \<mapsto> v)"
  by (simp add: dict_setitem_def update_conv')

lemma keys_setitem_distinct:
  "distinct (dict_keys d) \<Longrightarrow> distinct (dict_keys (dict_setitem d k v))"
  by (simp add: dict_setitem_def dict_keys_def distinct_update)

lemma map_of_delitem: "map_of (dict_delitem d k) = (map_of d)(k := None)"
  by (simp add: dict_delitem_def delete_conv')

lemma keys_delitem_distinct:
  "distinct (dict_keys d) \<Longrightarrow> distinct (dict_keys (dict_delitem d k))"
  by (simp add: dict_delitem_def dict_keys_def distinct_delete)

lemma setitem_new: "\<not> dict_in k d \<Longrightarrow> dict_setitem d k v = d @ [(k, v)]"
  unfolding dict_in_def dict_keys_def dict_setitem_def
  by (induction d) auto

lemma count_remove1:
  "count_list (remove1 x xs) y = (if x = y \<and> x \<in> set xs then count_list xs y - 1 else count_list xs y)"
  by (induction xs) auto

lemma count_le1_remove1_notin: "count_list xs x \<le> 1 \<Longrightarrow> x \<notin> set (remove1 x xs)"
  by (induction xs) (auto simp: count_list_0_iff)

lemma in_remove1_other: "x \<noteq> y \<Longrightarrow> y \<in> set (remove1 x xs) \<longleftrightarrow> y \<in> set xs"
  by (induction xs) auto

lemma remove1_guard [simp]: "(if x \<in> set xs then remove1 x xs else xs) = remove1 x xs"
  by (simp add: remove1_idem)

lemma graph_inv_new: "graph_inv (new_graph d)"
  by (simp add: graph_inv_def new_graph_def adj_map_def dict_keys_def closed_adj_def
      simple_adj_def sym_adj_def)

lemma adj_map_add_node:
  "adj_map (snd (add_node g n)) = (if n \<in> dom (adj_map g) then adj_map g else (adj_map g)(n \<mapsto> []))"
  by (auto simp: add_node_def adj_map_def dict_in_dom map_of_setitem)

lemma directed_add_node: "directed (snd (add_node g n)) = directed g"
  by (simp add: add_node_def)

lemma keys_add_node:
  "distinct (dict_keys (adjacency_list g)) \<Longrightarrow> distinct (dict_keys (adjacency_list (snd (add_node g n))))"
  by (simp add: add_node_def keys_setitem_distinct)

lemma closed_adj_new_key: "closed_adj m \<Longrightarrow> closed_adj (m(n \<mapsto> []))"
  unfolding closed_adj_def by (auto split: if_splits)

lemma simple_adj_new_key: "simple_adj d m \<Longrightarrow> simple_adj d (m(n \<mapsto> []))"
  unfolding simple_adj_def by (auto split: if_splits)

lemma sym_adj_new_key: "closed_adj m \<Longrightarrow> n \<notin> dom m \<Longrightarrow> sym_adj m \<Longrightarrow> sym_adj (m(n \<mapsto> []))"
  unfolding sym_adj_def closed_adj_def
  by (auto split: if_splits)

lemma graph_inv_add_node: "graph_inv g \<Longrightarrow> graph_inv (snd (add_node g n))"
proof (cases "n \<in> dom (adj_map g)")
  case True
  assume "graph_inv g"
  then show ?thesis using True
    by (simp add: graph_inv_def adj_map_add_node directed_add_node keys_add_node)
next
  case False
  assume "graph_inv g"
  then show ?thesis using False
    by (simp add: graph_inv_def adj_map_add_node directed_add_node keys_add_node
        closed_adj_new_key simple_adj_new_key sym_adj_new_key)
qed

lemma add_edge_no_error: "\<exists>r. add_edge g u v = Inr r"
  unfolding add_edge_def Let_def
  by (auto simp: add_node_def dict_in_dom map_of_setitem dict_getitem_def
      split: option.splits if_splits sum.splits)

lemma add_edge_effect:
  assumes "add_edge g u v = Inr (b, g')"
  shows "directed g' = directed g \<and>
     (distinct (dict_keys (adjacency_list g)) \<longrightarrow> distinct (dict_keys (adjacency_list g'))) \<and>
     (let m = adj_map g; m2 = (if v \<in> dom m \<or> v = u then m else m(v \<mapsto> []));
          ns = (case m u of None \<Rightarrow> [] | Some ns \<Rightarrow> ns);
          ms = (case m v of None \<Rightarrow> [] | Some ms \<Rightarrow> ms) in
      if v \<in> set ns then \<not> b \<and> adj_map g' = m2(u \<mapsto> ns)
      else b \<and> adj_map g' =
          (if directed g then m2(u \<mapsto> ns @ [v])
           else if u = v then m2(u \<mapsto> ns @ [u, u])
           else m2(u \<mapsto> ns @ [v], v \<mapsto> ms @ [u])))"
  using assms unfolding add_edge_def Let_def
  by (auto simp: add_node_def adj_map_def dict_in_dom map_of_setitem keys_setitem_distinct
      dict_getitem_def fun_upd_twist  split: option.splits if_splits)

lemma closed_adj_upd:
  "closed_adj m \<Longrightarrow> \<forall>x \<in> set ns. x = k \<or> m x \<noteq> None \<Longrightarrow> closed_adj (m(k \<mapsto> ns))"
  unfolding closed_adj_def by (auto split: if_splits)

lemma simple_adj_upd:
  "simple_adj d m \<Longrightarrow> \<forall>n. (d \<or> n \<noteq> k) \<longrightarrow> count_list ns n \<le> 1 \<Longrightarrow> simple_adj d (m(k \<mapsto> ns))"
  unfolding simple_adj_def by (auto split: if_splits)

lemma simple_adjD: "simple_adj d m \<Longrightarrow> m k = Some ns \<Longrightarrow> d \<or> n \<noteq> k \<Longrightarrow> count_list ns n \<le> 1"
  unfolding simple_adj_def by blast

lemma closed_adjD: "closed_adj m \<Longrightarrow> m k = Some ns \<Longrightarrow> x \<in> set ns \<Longrightarrow> m x \<noteq> None"
  unfolding closed_adj_def by blast

lemma sym_adjD: "sym_adj m \<Longrightarrow> m u = Some us \<Longrightarrow> m v = Some vs \<Longrightarrow> u \<noteq> v \<Longrightarrow>
   v \<in> set us \<longleftrightarrow> u \<in> set vs"
  unfolding sym_adj_def by blast

lemma sym_adj_upd_same:
  "sym_adj m \<Longrightarrow> m k = Some ns \<Longrightarrow> set ns' - {k} = set ns - {k} \<Longrightarrow> sym_adj (m(k \<mapsto> ns'))"
  unfolding sym_adj_def
  apply (intro allI impI)
  subgoal for u v us vs
    apply (cases "u = k"; cases "v = k")
       apply simp
      apply (simp, blast)
     apply (simp, blast)
    apply simp
    done
  done

lemma sym_adj_upd_pair:
  assumes "sym_adj m" "m u = Some us" "m v = Some vs" "u \<noteq> v"
    "set us' - {v} = set us - {v}" "set vs' - {u} = set vs - {u}"
    "v \<in> set us' \<longleftrightarrow> u \<in> set vs'"
  shows "sym_adj (m(u \<mapsto> us', v \<mapsto> vs'))"
  unfolding sym_adj_def
proof (intro allI impI)
  fix a b as bs
  assume ab: "a \<noteq> b" and a: "(m(u \<mapsto> us', v \<mapsto> vs')) a = Some as"
    and b: "(m(u \<mapsto> us', v \<mapsto> vs')) b = Some bs"
  have key: "\<And>x xs. m x = Some xs \<Longrightarrow> x \<noteq> u \<Longrightarrow> (u \<in> set xs) = (x \<in> set us)"
    "\<And>x xs. m x = Some xs \<Longrightarrow> x \<noteq> v \<Longrightarrow> (v \<in> set xs) = (x \<in> set vs)"
    using assms(1-3) unfolding sym_adj_def by blast+
  consider "a = u" "b = v" | "a = v" "b = u" | "a = u" "b \<noteq> v" "b \<noteq> u" | "a = v" "b \<noteq> u" "b \<noteq> v"
    | "b = u" "a \<noteq> u" "a \<noteq> v" | "b = v" "a \<noteq> u" "a \<noteq> v" | "a \<noteq> u" "a \<noteq> v" "b \<noteq> u" "b \<noteq> v"
    using ab by blast
  then show "(b \<in> set as) = (a \<in> set bs)"
  proof cases
    case 1 then show ?thesis using a b assms(4,7) by auto
  next
    case 2 then show ?thesis using a b assms(4,7) by auto
  next
    case 3 then show ?thesis using a b assms(4,5) key(1)[of b bs] by auto
  next
    case 4 then show ?thesis using a b assms(4,6) key(2)[of b bs] by auto
  next
    case 5 then show ?thesis using a b assms(4,5) key(1)[of a as] by auto
  next
    case 6 then show ?thesis using a b assms(4,6) key(2)[of a as] by auto
  next
    case 7 then show ?thesis using a b assms(1) ab unfolding sym_adj_def by auto
  qed
qed

lemma dom_adj_map_add_node: "dom (adj_map (snd (add_node g n))) = insert n (dom (adj_map g))"
  by (auto simp: adj_map_add_node split: if_splits)

lemma add_edge_effect2:
  assumes "add_edge g u v = Inr (b, g')"
  defines "g2 \<equiv> snd (add_node (snd (add_node g u)) v)"
  shows "\<exists>ns ms. adj_map g2 u = Some ns \<and> adj_map g2 v = Some ms \<and>
     (if v \<in> set ns then \<not> b \<and> g' = g2
      else b \<and> directed g' = directed g2 \<and>
        (distinct (dict_keys (adjacency_list g2)) \<longrightarrow> distinct (dict_keys (adjacency_list g'))) \<and>
        adj_map g' =
          (if directed g2 then (adj_map g2)(u \<mapsto> ns @ [v])
           else if u = v then (adj_map g2)(u \<mapsto> ns @ [u, u])
           else (adj_map g2)(u \<mapsto> ns @ [v], v \<mapsto> ms @ [u])))"
proof -
  have "u \<in> dom (adj_map g2)" "v \<in> dom (adj_map g2)"
    by (simp_all add: g2_def dom_adj_map_add_node)
  then obtain ns ms where ns: "adj_map g2 u = Some ns" and ms: "adj_map g2 v = Some ms"
    by blast
  have "add_edge g u v =
     (case dict_getitem (adjacency_list g2) u of
           Inl e \<Rightarrow> Inl e
         | Inr ns \<Rightarrow>
             if v \<notin> set ns then
               (let g3 = g2\<lparr>adjacency_list :=
                              dict_setitem (adjacency_list g2) u (ns @ [v])\<rparr>
                in if \<not> directed g3 then
                     (case dict_getitem (adjacency_list g3) v of
                        Inl e \<Rightarrow> Inl e
                      | Inr ms \<Rightarrow>
                          Inr (True, g3\<lparr>adjacency_list :=
                                 dict_setitem (adjacency_list g3) v (ms @ [u])\<rparr>))
                   else Inr (True, g3))
             else Inr (False, g2))" (is "_ = ?rhs")
    unfolding add_edge_def g2_def Let_def by (rule refl)
  with assms(1) ns ms show ?thesis
    by (auto simp: adj_map_def dict_getitem_def map_of_setitem keys_setitem_distinct Let_def
        split: if_splits)
qed

lemma count_list_append1: "count_list (xs @ [y]) n = count_list xs n + (if n = y then 1 else 0)"
  by (induction xs) auto

lemma graph_inv_add_edge:
  assumes inv: "graph_inv g" and ae: "add_edge g u v = Inr (b, g')"
  shows "graph_inv g'"
proof -
  define g2 where "g2 = snd (add_node (snd (add_node g u)) v)"
  have inv2: "graph_inv g2"
    unfolding g2_def by (intro graph_inv_add_node inv)
  from add_edge_effect2[OF ae, folded g2_def]
  obtain ns ms where ns: "adj_map g2 u = Some ns" and ms: "adj_map g2 v = Some ms"
    and eff: "if v \<in> set ns then \<not> b \<and> g' = g2
      else b \<and> directed g' = directed g2 \<and>
        (distinct (dict_keys (adjacency_list g2)) \<longrightarrow> distinct (dict_keys (adjacency_list g'))) \<and>
        adj_map g' =
          (if directed g2 then (adj_map g2)(u \<mapsto> ns @ [v])
           else if u = v then (adj_map g2)(u \<mapsto> ns @ [u, u])
           else (adj_map g2)(u \<mapsto> ns @ [v], v \<mapsto> ms @ [u]))"
    by blast
  let ?m = "adj_map g2"
  have cl: "closed_adj ?m" and si: "simple_adj (directed g2) ?m"
    and sy: "\<not> directed g2 \<Longrightarrow> sym_adj ?m" and di: "distinct (dict_keys (adjacency_list g2))"
    using inv2 by (auto simp: graph_inv_def)
  show ?thesis
  proof (cases "v \<in> set ns")
    case True
    with eff inv2 show ?thesis by simp
  next
    case False
    with eff have b: b and dir: "directed g' = directed g2"
      and dist: "distinct (dict_keys (adjacency_list g'))"
      and m': "adj_map g' =
          (if directed g2 then ?m(u \<mapsto> ns @ [v])
           else if u = v then ?m(u \<mapsto> ns @ [u, u])
           else ?m(u \<mapsto> ns @ [v], v \<mapsto> ms @ [u]))"
      using di by auto
    have ns_cl: "\<forall>x \<in> set ns. ?m x \<noteq> None" and ms_cl: "\<forall>x \<in> set ms. ?m x \<noteq> None"
      using cl ns ms closed_adjD by metis+
    have cnt_ns: "\<And>n. directed g2 \<or> n \<noteq> u \<Longrightarrow> count_list (ns @ [v]) n \<le> 1"
      using simple_adjD[OF si ns] False by (auto simp: count_list_append1 count_list_0_iff)
    show ?thesis
    proof (cases "directed g2")
      case True
      have "closed_adj (?m(u \<mapsto> ns @ [v]))"
        using cl ns_cl ms by (intro closed_adj_upd) auto
      moreover have "simple_adj True (?m(u \<mapsto> ns @ [v]))"
        using si cnt_ns True by (intro simple_adj_upd) auto
      ultimately show ?thesis using True dir dist m' by (simp add: graph_inv_def)
    next
      case und: False
      show ?thesis
      proof (cases "u = v")
        case True
        have "closed_adj (?m(u \<mapsto> ns @ [u, u]))"
          using cl ns_cl by (intro closed_adj_upd) auto
        moreover have "simple_adj False (?m(u \<mapsto> ns @ [u, u]))"
          using si und simple_adjD[OF si ns] by (intro simple_adj_upd) auto
        moreover have "sym_adj (?m(u \<mapsto> ns @ [u, u]))"
          using sy[OF und] ns by (intro sym_adj_upd_same[where ns=ns]) auto
        ultimately show ?thesis using True und dir dist m' by (simp add: graph_inv_def)
      next
        case neq: False
        have ums: "u \<notin> set ms" using sym_adjD[OF sy[OF und] ns ms neq] False by simp
        have c1: "closed_adj (?m(u \<mapsto> ns @ [v]))"
          using cl ns_cl ms by (intro closed_adj_upd) auto
        have "closed_adj (?m(u \<mapsto> ns @ [v], v \<mapsto> ms @ [u]))"
          by (rule closed_adj_upd[OF c1]) (use ms_cl in auto)
        moreover have s1: "simple_adj False (?m(u \<mapsto> ns @ [v]))"
          using si und cnt_ns by (intro simple_adj_upd) auto
        have "simple_adj False (?m(u \<mapsto> ns @ [v], v \<mapsto> ms @ [u]))"
          by (rule simple_adj_upd[OF s1])
             (use simple_adjD[OF si ms] und ums in \<open>auto simp: count_list_append1 count_list_0_iff\<close>)
        moreover have "sym_adj (?m(u \<mapsto> ns @ [v], v \<mapsto> ms @ [u]))"
          using sy[OF und] ns ms neq by (intro sym_adj_upd_pair[where us=ns and vs=ms]) auto
        ultimately show ?thesis using neq und dir dist m' by (simp add: graph_inv_def)
      qed
    qed
  qed
qed

lemma adj_map_remove_node:
  "adj_map (snd (remove_node g n)) =
     (if n \<in> dom (adj_map g)
      then (\<lambda>k. if k = n then None else map_option (remove1 n) (adj_map g k))
      else adj_map g)"
  by (auto simp: remove_node_def adj_map_def dict_in_dom map_of_delitem map_of_map comp_def fun_eq_iff)

lemma keys_remove_node:
  "distinct (dict_keys (adjacency_list g)) \<Longrightarrow>
   distinct (dict_keys (adjacency_list (snd (remove_node g n))))"
  using keys_delitem_distinct[of "adjacency_list g" n]
  by (auto simp: remove_node_def dict_keys_def comp_def case_prod_unfold)

lemma directed_remove_node: "directed (snd (remove_node g n)) = directed g"
  by (simp add: remove_node_def)

lemma graph_inv_remove_node:
  assumes "graph_inv g" shows "graph_inv (snd (remove_node g n))"
proof (cases "n \<in> dom (adj_map g)")
  case False
  then show ?thesis using assms by (simp add: remove_node_def dict_in_dom adj_map_def)
next
  case True
  let ?m = "adj_map g"
  let ?m' = "\<lambda>k. if k = n then None else map_option (remove1 n) (?m k)"
  have cl: "closed_adj ?m" and si: "simple_adj (directed g) ?m"
    and sy: "\<not> directed g \<Longrightarrow> sym_adj ?m" and di: "distinct (dict_keys (adjacency_list g))"
    using assms by (auto simp: graph_inv_def)
  have "closed_adj ?m'"
    unfolding closed_adj_def
  proof (intro allI impI)
    fix k ns x assume a: "?m' k = Some ns" "x \<in> set ns"
    then have kn: "k \<noteq> n" by (auto split: if_splits)
    with a obtain ns0 where ns0: "?m k = Some ns0" "ns = remove1 n ns0" by auto
    have "count_list ns0 n \<le> 1" using simple_adjD[OF si ns0(1)] kn by simp
    then have "n \<notin> set ns" using ns0(2) count_le1_remove1_notin by metis
    with a(2) have xn: "x \<noteq> n" by auto
    have "x \<in> set ns0" using a(2) ns0(2) notin_set_remove1 by metis
    then have "?m x \<noteq> None" using closed_adjD[OF cl ns0(1)] by simp
    with xn show "?m' x \<noteq> None" by simp
  qed
  moreover have "simple_adj (directed g) ?m'"
    unfolding simple_adj_def
  proof (intro allI impI)
    fix k ns x assume a: "?m' k = Some ns" "directed g \<or> x \<noteq> k"
    then have kn: "k \<noteq> n" by (auto split: if_splits)
    with a obtain ns0 where ns0: "?m k = Some ns0" "ns = remove1 n ns0" by auto
    have "count_list ns0 x \<le> 1" using simple_adjD[OF si ns0(1) a(2)] .
    then show "count_list ns x \<le> 1" using ns0(2) by (simp add: count_remove1)
  qed
  moreover have "sym_adj ?m'" if und: "\<not> directed g"
    unfolding sym_adj_def
  proof (intro allI impI)
    fix u v us vs assume a: "u \<noteq> v" "?m' u = Some us" "?m' v = Some vs"
    then have un: "u \<noteq> n" and vn: "v \<noteq> n" by (auto split: if_splits)
    with a obtain us0 vs0 where 0: "?m u = Some us0" "us = remove1 n us0"
        "?m v = Some vs0" "vs = remove1 n vs0" by auto
    have "(v \<in> set us0) = (u \<in> set vs0)" using sym_adjD[OF sy[OF und] 0(1) 0(3) a(1)] .
    then show "(v \<in> set us) = (u \<in> set vs)"
      using 0 un vn by (simp add: in_remove1_other)
  qed
  ultimately show ?thesis
    using True di by (simp add: graph_inv_def adj_map_remove_node directed_remove_node keys_remove_node)
qed

lemma set_remove1_minus: "set (remove1 x xs) - {x} = set xs - {x}"
  by (induction xs) auto

lemma closed_adj_upd_subset:
  "closed_adj m \<Longrightarrow> m k = Some ns \<Longrightarrow> set ns' \<subseteq> set ns \<Longrightarrow> closed_adj (m(k \<mapsto> ns'))"
  unfolding closed_adj_def by (auto split: if_splits)

lemma simple_adj_upd_le:
  "simple_adj d m \<Longrightarrow> m k = Some ns \<Longrightarrow> \<forall>n. count_list ns' n \<le> count_list ns n \<Longrightarrow>
   simple_adj d (m(k \<mapsto> ns'))"
  unfolding simple_adj_def by (auto split: if_splits intro: order_trans)

lemma has_edge_map:
  "has_edge g u v \<longleftrightarrow> (\<exists>ns. adj_map g u = Some ns \<and> v \<in> set ns)"
  by (auto simp: has_edge_def dict_in_dom adj_map_def dict_get_def split: option.splits)

lemma remove_edge_effect:
  "directed (snd (remove_edge g u v)) = directed g \<and>
   (distinct (dict_keys (adjacency_list g)) \<longrightarrow>
      distinct (dict_keys (adjacency_list (snd (remove_edge g u v))))) \<and>
   adj_map (snd (remove_edge g u v)) =
     (case adj_map g u of None \<Rightarrow> adj_map g
      | Some ns \<Rightarrow> if v \<notin> set ns then adj_map g
          else let m1 = (adj_map g)(u \<mapsto> remove1 v ns) in
               (case m1 v of None \<Rightarrow> m1
                | Some ms \<Rightarrow> if \<not> directed g \<and> u \<in> set ms then m1(v \<mapsto> remove1 u ms) else m1))"
  unfolding remove_edge_def Let_def has_edge_map
  by (auto simp: adj_map_def map_of_setitem keys_setitem_distinct dict_get_def
      split: option.splits)

lemma graph_inv_remove_edge:
  assumes "graph_inv g" shows "graph_inv (snd (remove_edge g u v))"
proof -
  let ?g' = "snd (remove_edge g u v)"
  let ?m = "adj_map g"
  have cl: "closed_adj ?m" and si: "simple_adj (directed g) ?m"
    and sy: "\<not> directed g \<Longrightarrow> sym_adj ?m" and di: "distinct (dict_keys (adjacency_list g))"
    using assms by (auto simp: graph_inv_def)
  note eff = remove_edge_effect[of g u v]
  note effm = eff[THEN conjunct2, THEN conjunct2]
  have dir: "directed ?g' = directed g" and dist: "distinct (dict_keys (adjacency_list ?g'))"
    using eff di by auto
  show ?thesis
  proof (cases "\<exists>ns. ?m u = Some ns \<and> v \<in> set ns")
    case False
    then have "adj_map ?g' = ?m" using effm by (auto split: option.splits)
    then show ?thesis using assms dir dist by (simp add: graph_inv_def)
  next
    case True
    then obtain ns where ns: "?m u = Some ns" "v \<in> set ns" by blast
    let ?m1 = "?m(u \<mapsto> remove1 v ns)"
    have c1: "closed_adj ?m1"
      by (rule closed_adj_upd_subset[OF cl ns(1)]) (rule set_remove1_subset)
    have s1: "simple_adj (directed g) ?m1"
      by (rule simple_adj_upd_le[OF si ns(1)]) (simp add: count_remove1)
    obtain ms where ms: "?m v = Some ms" using closed_adjD[OF cl ns] by auto
    show ?thesis
    proof (cases "directed g")
      case True
      then have "adj_map ?g' = ?m1" using effm ns ms by (auto simp: Let_def)
      then show ?thesis using c1 s1 dir dist True by (simp add: graph_inv_def)
    next
      case und: False
      show ?thesis
      proof (cases "u = v")
        case True
        let ?ns1 = "remove1 v ns"
        have m1v: "?m1 v = Some ?ns1" using True by simp
        have sy1: "sym_adj ?m1"
          by (rule sym_adj_upd_same[OF sy[OF und] ns(1)]) (simp add: set_remove1_minus True)
        show ?thesis
        proof (cases "u \<in> set ?ns1")
          case False
          then have "adj_map ?g' = ?m1" using effm ns m1v und True by (auto simp: Let_def)
          then show ?thesis using c1 s1 sy1 dir dist und by (simp add: graph_inv_def)
        next
          case in1: True
          then have m': "adj_map ?g' = ?m1(v \<mapsto> remove1 u ?ns1)"
            using effm ns m1v und True by (auto simp: Let_def)
          have "closed_adj (?m1(v \<mapsto> remove1 u ?ns1))"
            by (rule closed_adj_upd_subset[OF c1 m1v]) (rule set_remove1_subset)
          moreover have "simple_adj (directed g) (?m1(v \<mapsto> remove1 u ?ns1))"
            by (rule simple_adj_upd_le[OF s1 m1v]) (simp add: count_remove1)
          moreover have "sym_adj (?m1(v \<mapsto> remove1 u ?ns1))"
            by (rule sym_adj_upd_same[OF sy1 m1v]) (simp add: set_remove1_minus True)
          ultimately show ?thesis using m' dir dist und by (simp add: graph_inv_def)
        qed
      next
        case neq: False
        have m1v: "?m1 v = Some ms" using neq ms by simp
        have ums: "u \<in> set ms" using sym_adjD[OF sy[OF und] ns(1) ms neq] ns(2) by simp
        then have m': "adj_map ?g' = ?m1(v \<mapsto> remove1 u ms)"
          using effm ns m1v und by (auto simp: Let_def)
        have "closed_adj (?m1(v \<mapsto> remove1 u ms))"
          by (rule closed_adj_upd_subset[OF c1 m1v]) (rule set_remove1_subset)
        moreover have "simple_adj (directed g) (?m1(v \<mapsto> remove1 u ms))"
          by (rule simple_adj_upd_le[OF s1 m1v]) (simp add: count_remove1)
        moreover have "sym_adj (?m(u \<mapsto> remove1 v ns, v \<mapsto> remove1 u ms))"
        proof (rule sym_adj_upd_pair[OF sy[OF und] ns(1) ms neq])
          show "set (remove1 v ns) - {v} = set ns - {v}" by (rule set_remove1_minus)
          show "set (remove1 u ms) - {u} = set ms - {u}" by (rule set_remove1_minus)
          have "v \<notin> set (remove1 v ns)"
            using simple_adjD[OF si ns(1), of v] neq und by (intro count_le1_remove1_notin) auto
          moreover have "u \<notin> set (remove1 u ms)"
            using simple_adjD[OF si ms, of u] neq und by (intro count_le1_remove1_notin) auto
          ultimately show "(v \<in> set (remove1 v ns)) = (u \<in> set (remove1 u ms))" by simp
        qed
        ultimately show ?thesis using m' dir dist und by (simp add: graph_inv_def)
      qed
    qed
  qed
qed

lemma built_inv: "built g \<Longrightarrow> graph_inv g"
proof (induction rule: built.induct)
  case (built_new d) show ?case by (rule graph_inv_new)
next
  case (built_add_node g n) then show ?case by (simp add: graph_inv_add_node)
next
  case (built_add_edge g u v b g') then show ?case by (blast intro: graph_inv_add_edge)
next
  case (built_remove_edge g u v) then show ?case by (simp add: graph_inv_remove_edge)
next
  case (built_remove_node g n) then show ?case by (simp add: graph_inv_remove_node)
qed

lemma in_adj_iff:
  "distinct (dict_keys (adjacency_list g)) \<Longrightarrow>
   (k, ns) \<in> set (adjacency_list g) \<longleftrightarrow> adj_map g k = Some ns"
  by (simp add: adj_map_def dict_keys_def)

lemma get_nodes_inv: "graph_inv g \<Longrightarrow> get_nodes g = dom (adj_map g)"
proof -
  assume inv: "graph_inv g"
  then have di: "distinct (dict_keys (adjacency_list g))" and cl: "closed_adj (adj_map g)"
    by (auto simp: graph_inv_def)
  have "set (dict_keys (adjacency_list g)) = dom (adj_map g)"
    by (simp add: dict_keys_def adj_map_def dom_map_of_conv_image_fst)
  moreover have "(\<Union>ns \<in> set (map snd (adjacency_list g)). set ns) \<subseteq> dom (adj_map g)"
  proof
    fix x assume "x \<in> (\<Union>ns \<in> set (map snd (adjacency_list g)). set ns)"
    then obtain k ns where "(k, ns) \<in> set (adjacency_list g)" "x \<in> set ns" by auto
    then show "x \<in> dom (adj_map g)" using closed_adjD[OF cl] in_adj_iff[OF di] by blast
  qed
  ultimately show ?thesis unfolding get_nodes_def by blast
qed

lemma get_edges_iff:
  "(a, b) \<in> set (get_edges g) \<longleftrightarrow> (\<exists>ns. (a, ns) \<in> set (adjacency_list g) \<and> b \<in> set ns)"
  unfolding get_edges_def by auto

lemma remove_node_not_key:
  assumes "fst (remove_node g n)"
  shows "n \<notin> dom (adj_map (snd (remove_node g n)))"
proof -
  have "dict_in n (adjacency_list g)"
    using assms by (simp add: remove_node_def split: if_splits)
  then have "n \<in> dom (adj_map g)" by (simp add: dict_in_dom adj_map_def)
  then show ?thesis by (simp add: adj_map_remove_node domIff)
qed

text \<open>
  C8.  On a graph built through the public mutators, once \<open>remove_node(n)\<close> has
  returned \<open>True\<close> the node is not among \<open>get_nodes()\<close> and no edge of
  \<open>get_edges()\<close> has it as source or as destination.
\<close>

theorem remove_node_leaves_no_reference:
  assumes "built g" and "fst (remove_node g n)"
  shows "n \<notin> get_nodes (snd (remove_node g n)) \<and>
         (\<forall>e \<in> set (get_edges (snd (remove_node g n))). fst e \<noteq> n \<and> snd e \<noteq> n)"
proof -
  let ?g' = "snd (remove_node g n)"
  have inv: "graph_inv ?g'" using assms(1) by (intro graph_inv_remove_node built_inv)
  then have di: "distinct (dict_keys (adjacency_list ?g'))" and cl: "closed_adj (adj_map ?g')"
    by (auto simp: graph_inv_def)
  have nk: "n \<notin> dom (adj_map ?g')" by (rule remove_node_not_key[OF assms(2)])
  have "n \<notin> get_nodes ?g'" using nk get_nodes_inv[OF inv] by simp
  moreover have "fst e \<noteq> n \<and> snd e \<noteq> n" if "e \<in> set (get_edges ?g')" for e
  proof -
    obtain a b where e: "e = (a, b)" by (cases e)
    with that obtain ns where "(a, ns) \<in> set (adjacency_list ?g')" "b \<in> set ns"
      using get_edges_iff by metis
    then have "adj_map ?g' a = Some ns" "adj_map ?g' b \<noteq> None"
      using in_adj_iff[OF di] closed_adjD[OF cl] by blast+
    then show ?thesis using nk e by auto
  qed
  ultimately show ?thesis by blast
qed

lemmas graph_eval = add_edge_def add_node_def remove_node_def remove_edge_def new_graph_def
  dict_in_def dict_keys_def dict_setitem_def dict_getitem_def dict_delitem_def dict_get_def
  has_edge_def get_nodes_def get_edges_def get_neighbors_def get_degree_def Let_def

lemma built_example:
  "built \<lparr>adjacency_list = [(1::nat, [2]), (2, [])], directed = True\<rparr>"
proof -
  have "add_edge (new_graph True) (1::nat) 2 =
          Inr (True, \<lparr>adjacency_list = [(1, [2]), (2, [])], directed = True\<rparr>)"
    by (simp add: graph_eval)
  from built_add_edge[OF built_new this] show ?thesis .
qed

theorem remove_node_leaves_no_reference_witness:
  "built \<lparr>adjacency_list = [(1::nat, [2]), (2, [])], directed = True\<rparr> \<and>
   fst (remove_node \<lparr>adjacency_list = [(1::nat, [2]), (2, [])], directed = True\<rparr> 2) \<and>
   snd (remove_node \<lparr>adjacency_list = [(1::nat, [2]), (2, [])], directed = True\<rparr> 2)
      = \<lparr>adjacency_list = [(1, [])], directed = True\<rparr> \<and>
   2 \<notin> get_nodes (snd (remove_node \<lparr>adjacency_list = [(1::nat, [2]), (2, [])], directed = True\<rparr> 2)) \<and>
   get_edges (snd (remove_node \<lparr>adjacency_list = [(1::nat, [2]), (2, [])], directed = True\<rparr> 2)) = []"
proof -
  let ?g = "\<lparr>adjacency_list = [(1::nat, [2]), (2, [])], directed = True\<rparr>"
  have r: "fst (remove_node ?g 2)" by (simp add: graph_eval)
  have s: "snd (remove_node ?g 2) = \<lparr>adjacency_list = [(1, [])], directed = True\<rparr>"
    by (simp add: graph_eval)
  have e: "get_edges \<lparr>adjacency_list = [(1::nat, [])], directed = True\<rparr> = []"
    by (simp add: get_edges_def)
  from remove_node_leaves_no_reference[OF built_example r] built_example r s e
  show ?thesis by simp
qed

lemma get_neighbors_map:
  "get_neighbors g x = (case adj_map g x of None \<Rightarrow> [] | Some ns \<Rightarrow> ns)"
  by (simp add: get_neighbors_def dict_get_def adj_map_def)

lemma add_edge_neighbors:
  assumes "add_edge g u v = Inr (b, g')"
  shows "b = (\<not> has_edge g u v) \<and> directed g' = directed g \<and>
      dict_in u (adjacency_list g') \<and> dict_in v (adjacency_list g') \<and>
      (\<forall>x. get_neighbors g' x =
             get_neighbors g x @ (if \<not> has_edge g u v \<and> x = u then [v] else [])
                               @ (if \<not> has_edge g u v \<and> \<not> directed g \<and> x = v then [u] else []))"
proof -
  note e = add_edge_effect[OF assms]
  have he: "has_edge g u v \<longleftrightarrow> v \<in> set (case adj_map g u of None \<Rightarrow> [] | Some ns \<Rightarrow> ns)"
    by (cases "adj_map g u") (auto simp: has_edge_map)
  show ?thesis
    using e unfolding he Let_def dict_in_dom get_neighbors_map adj_map_def[symmetric]
    by (auto split: if_splits option.splits)
qed

lemma add_edge_present_same:
  assumes "add_edge g u v = Inr (b, g')" "has_edge g u v" "dict_in v (adjacency_list g)"
  shows "g' = g"
proof -
  have u: "dict_in u (adjacency_list g)" using assms(2) by (simp add: has_edge_def)
  have g2: "snd (add_node (snd (add_node g u)) v) = g"
    using u assms(3) by (simp add: add_node_def)
  from assms(2) obtain ns where ns: "adj_map g u = Some ns" "v \<in> set ns"
    by (auto simp: has_edge_map)
  from add_edge_effect2[OF assms(1)] ns show ?thesis
    unfolding g2 by auto
qed

lemma built_has_edge_key:
  assumes "built g" "has_edge g u v" shows "dict_in v (adjacency_list g)"
proof -
  have "closed_adj (adj_map g)" using built_inv[OF assms(1)] by (simp add: graph_inv_def)
  moreover from assms(2) obtain ns where "adj_map g u = Some ns" "v \<in> set ns"
    by (auto simp: has_edge_map)
  ultimately have "adj_map g v \<noteq> None" by (rule closed_adjD)
  then show ?thesis by (auto simp: dict_in_dom adj_map_def)
qed

text \<open>
  C9.  Duplicate insertion is reported, never raised.  \<open>add_node\<close> on a present node
  returns \<open>False\<close> and the same graph, and on a new node returns \<open>True\<close> with the
  node appended under an empty list.  \<open>add_edge\<close> always returns normally (never the
  \<open>KeyError\<close> of its subscripts), its flag is \<open>True\<close> exactly when the edge was not
  present, both endpoints are keys afterwards, and every adjacency list read through
  \<open>get_neighbors\<close> is the old one, extended on a new edge by the edge (and by the
  reverse edge in an undirected graph).  On a graph built through the mutators a
  duplicate \<open>add_edge\<close> leaves the whole graph as it was.
\<close>

theorem duplicate_insertion_is_reported:
  "(dict_in n (adjacency_list g) \<longrightarrow> add_node g n = (False, g)) \<and>
   (\<not> dict_in n (adjacency_list g) \<longrightarrow>
      add_node g n = (True, g\<lparr>adjacency_list := adjacency_list g @ [(n, [])]\<rparr>)) \<and>
   (\<exists>b g'. add_edge g u v = Inr (b, g') \<and> b = (\<not> has_edge g u v) \<and>
      directed g' = directed g \<and>
      dict_in u (adjacency_list g') \<and> dict_in v (adjacency_list g') \<and>
      (\<forall>x. get_neighbors g' x =
             get_neighbors g x @ (if \<not> has_edge g u v \<and> x = u then [v] else [])
                               @ (if \<not> has_edge g u v \<and> \<not> directed g \<and> x = v then [u] else [])) \<and>
      (has_edge g u v \<and> built g \<longrightarrow> g' = g))"
proof (intro conjI)
  show "dict_in n (adjacency_list g) \<longrightarrow> add_node g n = (False, g)"
    by (simp add: add_node_def)
  show "\<not> dict_in n (adjacency_list g) \<longrightarrow>
      add_node g n = (True, g\<lparr>adjacency_list := adjacency_list g @ [(n, [])]\<rparr>)"
    by (simp add: add_node_def setitem_new)
  obtain b g' where ae: "add_edge g u v = Inr (b, g')"
    using add_edge_no_error[of g u v] by (metis surj_pair)
  have "has_edge g u v \<and> built g \<longrightarrow> g' = g"
    by (auto intro: add_edge_present_same[OF ae] built_has_edge_key)
  with add_edge_neighbors[OF ae] ae
  show "\<exists>b g'. add_edge g u v = Inr (b, g') \<and> b = (\<not> has_edge g u v) \<and>
      directed g' = directed g \<and>
      dict_in u (adjacency_list g') \<and> dict_in v (adjacency_list g') \<and>
      (\<forall>x. get_neighbors g' x =
             get_neighbors g x @ (if \<not> has_edge g u v \<and> x = u then [v] else [])
                               @ (if \<not> has_edge g u v \<and> \<not> directed g \<and> x = v then [u] else [])) \<and>
      (has_edge g u v \<and> built g \<longrightarrow> g' = g)"
    by blast
qed

theorem duplicate_insertion_is_reported_witness:
  "add_node \<lparr>adjacency_list = [(1::nat, [2]), (2, [])], directed = True\<rparr> 1
     = (False, \<lparr>adjacency_list = [(1, [2]), (2, [])], directed = True\<rparr>) \<and>
   add_node \<lparr>adjacency_list = [(1::nat, [2]), (2, [])], directed = True\<rparr> 3
     = (True, \<lparr>adjacency_list = [(1, [2]), (2, []), (3, [])], directed = True\<rparr>) \<and>
   add_edge \<lparr>adjacency_list = [(1::nat, [2]), (2, [])], directed = True\<rparr> 1 2
     = Inr (False, \<lparr>adjacency_list = [(1, [2]), (2, [])], directed = True\<rparr>) \<and>
   (\<exists>g'. add_edge \<lparr>adjacency_list = [(1::nat, [2]), (2, [])], directed = True\<rparr> 2 1 = Inr (True, g')
        \<and> get_neighbors g' 2 = [1] \<and> get_neighbors g' 1 = [2])"
proof -
  let ?g = "\<lparr>adjacency_list = [(1::nat, [2]), (2, [])], directed = True\<rparr>"
  have k1: "dict_in 1 (adjacency_list ?g)" and k3: "\<not> dict_in 3 (adjacency_list ?g)"
    by (simp_all add: dict_in_def dict_keys_def)
  have e12: "has_edge ?g 1 2" and e21: "\<not> has_edge ?g 2 1"
    by (simp_all add: has_edge_def dict_in_def dict_keys_def dict_get_def)
  have n: "get_neighbors ?g 2 = []" "get_neighbors ?g 1 = [2]"
    by (simp_all add: get_neighbors_def dict_get_def)
  from duplicate_insertion_is_reported[of 1 ?g 1 2] k1 e12 built_example
  have a: "add_node ?g 1 = (False, ?g)" "add_edge ?g 1 2 = Inr (False, ?g)" by auto
  from duplicate_insertion_is_reported[of 3 ?g 2 1] k3 e21 n
  have b: "add_node ?g 3 = (True, ?g\<lparr>adjacency_list := adjacency_list ?g @ [(3, [])]\<rparr>)"
     "\<exists>g'. add_edge ?g 2 1 = Inr (True, g') \<and> get_neighbors g' 2 = [1] \<and> get_neighbors g' 1 = [2]"
    by auto
  from a b show ?thesis by simp
qed

lemma count_in_edges:
  "length (filter ((\<lambda>e. snd e = n) \<circ> Pair u) ns) = count_list ns n"
  by (induction ns) auto

lemma edges_into_sum:
  "length (filter (\<lambda>e. snd e = n)
           (concat (map (\<lambda>(from_node, neighbors). map (\<lambda>to_node. (from_node, to_node)) neighbors) d)))
   = sum_list (map (\<lambda>(k, ns). count_list ns n) d)"
  by (induction d) (auto simp: count_in_edges)

lemma sum_counts_le1:
  "\<forall>(k, ns) \<in> set d. count_list ns n \<le> 1 \<Longrightarrow>
   sum_list (map (\<lambda>(k, ns). count_list ns n) d)
     = length (filter (\<lambda>(other_node, neighbors). n \<in> set neighbors) d)"
proof (induction d)
  case Nil
  then show ?case by simp
next
  case (Cons p d)
  obtain k ns where p: "p = (k, ns)" by (cases p)
  have c: "count_list ns n \<le> 1" using Cons.prems p by simp
  have "count_list ns n = (if n \<in> set ns then 1 else 0)"
  proof (cases "n \<in> set ns")
    case True
    then have "count_list ns n \<noteq> 0" by (simp add: count_list_0_iff)
    with c show ?thesis using True by simp
  next
    case False
    then show ?thesis by (simp add: count_list_0_iff)
  qed
  with Cons p show ?case by simp
qed

lemma in_degree_counts_edges:
  assumes "\<forall>(k, ns) \<in> set d. count_list ns n \<le> 1"
  shows "length (filter (\<lambda>e. snd e = n)
           (concat (map (\<lambda>(from_node, neighbors). map (\<lambda>to_node. (from_node, to_node)) neighbors) d)))
         = length (filter (\<lambda>(other_node, neighbors). n \<in> set neighbors) d)"
  using edges_into_sum[of n d] sum_counts_le1[OF assms] by simp

text \<open>
  C10 (amended).  On a directed graph built through the mutators, the degree query of a
  node that is in the graph returns the dict with \<open>"in"\<close> the number of edges pointing
  to it, \<open>"out"\<close> the length of its adjacency list and \<open>"total"\<close> their sum; the
  query of an identifier that is not in the graph returns the integer \<open>0\<close>, not a dict.
  On an undirected graph it returns the single count, the length of the adjacency list.
\<close>

theorem get_degree_result:
  assumes "built g"
  shows "get_degree g n =
     (if directed g then
        (if n \<in> get_nodes g
         then DegDict [(''in'', length (filter (\<lambda>e. snd e = n) (get_edges g))),
                       (''out'', length (get_neighbors g n)),
                       (''total'', length (filter (\<lambda>e. snd e = n) (get_edges g))
                                   + length (get_neighbors g n))]
         else DegInt 0)
      else DegInt (length (get_neighbors g n)))"
proof -
  have inv: "graph_inv g" by (rule built_inv[OF assms])
  then have di: "distinct (dict_keys (adjacency_list g))"
    and si: "simple_adj (directed g) (adj_map g)" by (auto simp: graph_inv_def)
  have absent: "get_neighbors g n = []" if "n \<notin> get_nodes g"
    using that get_nodes_inv[OF inv] by (auto simp: get_neighbors_map split: option.splits)
  have indeg: "length (filter (\<lambda>e. snd e = n) (get_edges g))
      = length (filter (\<lambda>(other_node, neighbors). n \<in> set neighbors) (adjacency_list g))"
    if "directed g"
    unfolding get_edges_def
  proof (rule in_degree_counts_edges, clarify)
    fix k ns assume "(k, ns) \<in> set (adjacency_list g)"
    then have "adj_map g k = Some ns" using in_adj_iff[OF di] by simp
    then show "count_list ns n \<le> 1" using simple_adjD[OF si] that by blast
  qed
  show ?thesis
    using absent indeg by (auto simp: get_degree_def Let_def get_neighbors_def)
qed

theorem get_degree_result_witness:
  "built \<lparr>adjacency_list = [(1::nat, [2]), (2, [])], directed = True\<rparr> \<and>
   get_degree \<lparr>adjacency_list = [(1::nat, [2]), (2, [])], directed = True\<rparr> 2
     = DegDict [(''in'', 1), (''out'', 0), (''total'', 1)]"
  using get_degree_result[OF built_example, of 2] built_example
  by (simp add: get_nodes_def get_edges_def get_neighbors_def dict_keys_def dict_get_def)

theorem get_degree_absent_counterexample:
  "get_degree \<lparr>adjacency_list = [(1::nat, [2]), (2, [])], directed = True\<rparr> 3 = DegInt 0 \<and>
   get_degree \<lparr>adjacency_list = [(1::nat, [2]), (2, [])], directed = True\<rparr> 3
     \<noteq> DegDict [(''in'', 0), (''out'', 0), (''total'', 0)]"
  by (simp add: get_degree_def get_nodes_def dict_keys_def)

section \<open>Union-Find: find, union and the represented partition\<close>

lemma rep_rel_is_root: "rep_rel m x r \<Longrightarrow> m r = Some r"
  by (induction rule: rep_rel.induct) auto

lemma rep_rel_dom: "rep_rel m x r \<Longrightarrow> x \<in> dom m"
  by (induction rule: rep_rel.induct) auto

lemma rep_rel_of_root: "m r = Some r \<Longrightarrow> rep_rel m r s \<Longrightarrow> s = r"
  by (erule rep_rel.cases) auto

lemma rep_rel_det: "rep_rel m x r \<Longrightarrow> rep_rel m x s \<Longrightarrow> r = s"
proof (induction arbitrary: s rule: rep_rel.induct)
  case (rep_root x)
  then show ?case using rep_rel_of_root by metis
next
  case (rep_step x y r)
  from rep_step.prems rep_step.hyps(1,2) have "rep_rel m y s"
    by (auto elim: rep_rel.cases)
  then show ?case using rep_step.IH by blast
qed

lemma rep_rel_compress_fwd:
  assumes "rep_rel m x r" "x \<noteq> r" "m' = m(x \<mapsto> r)"
  shows "rep_rel m' z s \<Longrightarrow> rep_rel m z s"
proof (induction rule: rep_rel.induct)
  case (rep_root z)
  then have "z \<noteq> x" using assms(2,3) by auto
  with rep_root assms(3) have "m z = Some z" by simp
  then show ?case by (rule rep_rel.rep_root)
next
  case (rep_step z y s)
  have rr: "m r = Some r" by (rule rep_rel_is_root[OF assms(1)])
  show ?case
  proof (cases "z = x")
    case True
    with rep_step.hyps(1) assms(3) have "y = r" by simp
    with rep_step.IH have "rep_rel m r s" by simp
    then have "s = r" using rr by (rule rep_rel_of_root[rotated])
    with True assms(1) show ?thesis by simp
  next
    case False
    with rep_step.hyps(1) assms(3) have "m z = Some y" by simp
    then show ?thesis using rep_step.hyps(2) rep_step.IH by (rule rep_rel.rep_step)
  qed
qed

lemma rep_rel_compress_bwd:
  assumes "rep_rel m x r" "x \<noteq> r" "m' = m(x \<mapsto> r)"
  shows "rep_rel m z s \<Longrightarrow> rep_rel m' z s"
proof (induction rule: rep_rel.induct)
  case (rep_root z)
  have "z \<noteq> x"
  proof
    assume "z = x"
    with rep_root have mx: "m x = Some x" by simp
    have "r = x" using assms(1) mx by (rule rep_rel_of_root[rotated])
    with assms(2) show False by simp
  qed
  with rep_root assms(3) have "m' z = Some z" by simp
  then show ?case by (rule rep_rel.rep_root)
next
  case (rep_step z y s)
  have rr: "m r = Some r" by (rule rep_rel_is_root[OF assms(1)])
  show ?case
  proof (cases "z = x")
    case True
    have "rep_rel m x s" using True rep_step.hyps by (auto intro: rep_rel.rep_step)
    then have sr: "s = r" using assms(1) rep_rel_det by metis
    have "m' r = Some r" using rr assms(2,3) by simp
    then have "rep_rel m' r r" by (rule rep_rel.rep_root)
    moreover have "m' x = Some r" using assms(3) by simp
    ultimately have "rep_rel m' x r" using assms(2) by (intro rep_rel.rep_step[of m' x r r]) auto
    then show ?thesis using True sr by simp
  next
    case False
    then have "m' z = Some y" using rep_step.hyps(1) assms(3) by simp
    then show ?thesis using rep_step.hyps(2) rep_step.IH by (rule rep_rel.rep_step)
  qed
qed

lemma rep_rel_compress:
  "rep_rel m x r \<Longrightarrow> rep_rel (m(x \<mapsto> r)) z s \<longleftrightarrow> rep_rel m z s"
proof (cases "x = r")
  case True
  assume "rep_rel m x r"
  then have "m r = Some r" by (rule rep_rel_is_root)
  then have "m(x \<mapsto> r) = m" using True by auto
  then show ?thesis by simp
next
  case False
  assume "rep_rel m x r"
  then show ?thesis
    using False rep_rel_compress_fwd[OF _ _ refl] rep_rel_compress_bwd[OF _ _ refl] by metis
qed

lemma rep_rel_link_fwd:
  assumes "m r1 = Some r1" "m r2 = Some r2" "r1 \<noteq> r2" "m' = m(r2 \<mapsto> r1)"
  shows "rep_rel m' z s \<Longrightarrow> \<exists>t. rep_rel m z t \<and> s = (if t = r2 then r1 else t)"
proof (induction rule: rep_rel.induct)
  case (rep_root z)
  then have z2: "z \<noteq> r2" using assms(3,4) by auto
  with rep_root assms(4) have "m z = Some z" by simp
  then have "rep_rel m z z" by (rule rep_rel.rep_root)
  then show ?case using z2 by auto
next
  case (rep_step z y s)
  then obtain t where t: "rep_rel m y t" "s = (if t = r2 then r1 else t)" by blast
  show ?case
  proof (cases "z = r2")
    case True
    with rep_step.hyps(1) assms(4) have "y = r1" by simp
    with t(1) have "rep_rel m r1 t" by simp
    then have "t = r1" using assms(1) by (rule rep_rel_of_root[rotated])
    with t(2) assms(3) have "s = r1" by simp
    moreover have "rep_rel m r2 r2" using assms(2) by (rule rep_rel.rep_root)
    ultimately show ?thesis using True by auto
  next
    case False
    with rep_step.hyps(1) assms(4) have "m z = Some y" by simp
    then have "rep_rel m z t" using rep_step.hyps(2) t(1) by (rule rep_rel.rep_step)
    then show ?thesis using t(2) by auto
  qed
qed

lemma rep_rel_link_bwd:
  assumes "m r1 = Some r1" "m r2 = Some r2" "r1 \<noteq> r2" "m' = m(r2 \<mapsto> r1)"
  shows "rep_rel m z t \<Longrightarrow> rep_rel m' z (if t = r2 then r1 else t)"
proof (induction rule: rep_rel.induct)
  case (rep_root z)
  have "m' r1 = Some r1" using assms by simp
  then have r1: "rep_rel m' r1 r1" by (rule rep_rel.rep_root)
  show ?case
  proof (cases "z = r2")
    case True
    have "m' r2 = Some r1" using assms(4) by simp
    then have "rep_rel m' r2 r1" using r1 assms(3) by (intro rep_rel.rep_step[of m' r2 r1 r1]) auto
    then show ?thesis using True by simp
  next
    case False
    then have "m' z = Some z" using rep_root assms(4) by simp
    then have "rep_rel m' z z" by (rule rep_rel.rep_root)
    then show ?thesis using False by simp
  qed
next
  case (rep_step z y t)
  have "z \<noteq> r2" using rep_step.hyps(1,2) assms(2) by auto
  then have "m' z = Some y" using rep_step.hyps(1) assms(4) by simp
  then show ?case using rep_step.hyps(2) rep_step.IH by (rule rep_rel.rep_step)
qed

lemma rep_rel_link:
  assumes "m r1 = Some r1" "m r2 = Some r2" "r1 \<noteq> r2"
  shows "rep_rel (m(r2 \<mapsto> r1)) z s \<longleftrightarrow> (\<exists>t. rep_rel m z t \<and> s = (if t = r2 then r1 else t))"
  using rep_rel_link_fwd[OF assms refl] rep_rel_link_bwd[OF assms refl] by blast

lemma find_parent_correct:
  assumes "rep_rel (map_of par) x r"
  shows "\<exists>par'. find_parent par x = Some (Inr (r, par')) \<and>
           (\<forall>z s. rep_rel (map_of par') z s \<longleftrightarrow> rep_rel (map_of par) z s) \<and>
           dom (map_of par') = dom (map_of par)"
  using assms
proof (induction rule: rep_rel.induct)
  case (rep_root x)
  then show ?case
    by (subst find_parent.simps) (simp add: dict_getitem_def)
next
  case (rep_step x y r)
  then obtain par1 where p1: "find_parent par y = Some (Inr (r, par1))"
    and rr: "\<forall>z s. rep_rel (map_of par1) z s \<longleftrightarrow> rep_rel (map_of par) z s"
    and dd: "dom (map_of par1) = dom (map_of par)" by blast
  have fx: "find_parent par x = Some (Inr (r, dict_setitem par1 x r))"
    using rep_step.hyps(1,2) p1 by (subst find_parent.simps) (simp add: dict_getitem_def)
  have xr: "rep_rel (map_of par) x r"
    using rep_step.hyps by (auto intro: rep_rel.rep_step)
  then have "rep_rel (map_of par1) x r" using rr by simp
  then have "\<forall>z s. rep_rel (map_of (dict_setitem par1 x r)) z s \<longleftrightarrow> rep_rel (map_of par) z s"
    using rr by (simp add: map_of_setitem rep_rel_compress)
  moreover have "dom (map_of (dict_setitem par1 x r)) = dom (map_of par)"
    using dd rep_rel_dom[OF xr] by (auto simp: map_of_setitem)
  ultimately show ?case using fx by blast
qed

lemma find_correct:
  assumes "root_of uf x r"
  shows "\<exists>par'. find uf x = Some (Inr (r, uf\<lparr>parent := par'\<rparr>)) \<and>
           (\<forall>z s. root_of (uf\<lparr>parent := par'\<rparr>) z s \<longleftrightarrow> root_of uf z s) \<and>
           dom (map_of par') = dom (map_of (parent uf))"
proof -
  from find_parent_correct[OF assms[unfolded root_of_def]]
  obtain par' where "find_parent (parent uf) x = Some (Inr (r, par'))"
    "\<forall>z s. rep_rel (map_of par') z s \<longleftrightarrow> rep_rel (map_of (parent uf)) z s"
    "dom (map_of par') = dom (map_of (parent uf))" by blast
  then show ?thesis by (auto simp: find_def root_of_def)
qed

lemma root_of_is_root: "root_of uf x r \<Longrightarrow> root_of uf r r"
  unfolding root_of_def by (auto intro: rep_rel.rep_root dest: rep_rel_is_root)

lemma root_of_det: "root_of uf x r \<Longrightarrow> root_of uf x s \<Longrightarrow> r = s"
  unfolding root_of_def by (rule rep_rel_det)

lemma dom_setitem_present:
  "k \<in> dom (map_of d) \<Longrightarrow> dom (map_of (dict_setitem d k v)) = dom (map_of d)"
  by (auto simp: map_of_setitem)

lemma link_correct:
  assumes inv: "uf_inv uf" and w: "root_of uf w w" and l: "root_of uf l l" and wl: "w \<noteq> l"
    and uf': "parent uf' = dict_setitem (parent uf) l w"
    and rk: "dom (map_of (rank uf')) = dom (map_of (rank uf))"
  shows "uf_inv uf' \<and> dom (map_of (parent uf')) = dom (map_of (parent uf)) \<and>
         (\<forall>z s. root_of uf' z s \<longleftrightarrow> (\<exists>t. root_of uf z t \<and> s = (if t = l then w else t)))"
proof -
  let ?m = "map_of (parent uf)"
  have mw: "?m w = Some w" and ml: "?m l = Some l"
    using w l by (auto simp: root_of_def dest: rep_rel_is_root)
  have m': "map_of (parent uf') = ?m(l \<mapsto> w)" by (simp add: uf' map_of_setitem)
  have rel: "\<forall>z s. root_of uf' z s \<longleftrightarrow> (\<exists>t. root_of uf z t \<and> s = (if t = l then w else t))"
    unfolding root_of_def m' using rep_rel_link[OF mw ml wl] by blast
  have dm: "dom (map_of (parent uf')) = dom ?m" using ml by (auto simp: m')
  have "\<forall>x \<in> dom (map_of (parent uf')). \<exists>r. root_of uf' x r"
    using inv rel dm unfolding uf_inv_def by metis
  then show ?thesis using rel dm rk inv by (simp add: uf_inv_def)
qed

lemma union_correct:
  assumes inv: "uf_inv uf" and a: "root_of uf a ra" and b: "root_of uf b rb"
  shows "\<exists>uf'. union uf a b = Some (Inr (ra \<noteq> rb, uf')) \<and> uf_inv uf' \<and>
           dom (map_of (parent uf')) = dom (map_of (parent uf)) \<and>
           (if ra = rb
            then rank uf' = rank uf \<and> components uf' = components uf \<and>
                 (\<forall>z s. root_of uf' z s \<longleftrightarrow> root_of uf z s)
            else components uf' = components uf - 1 \<and>
                 (\<exists>w l. ((w = ra \<and> l = rb) \<or> (w = rb \<and> l = ra)) \<and>
                    (\<forall>z s. root_of uf' z s \<longleftrightarrow>
                       (\<exists>t. root_of uf z t \<and> s = (if t = l then w else t)))))"
proof -
  from find_correct[OF a] obtain p1 where
    f1: "find uf a = Some (Inr (ra, uf\<lparr>parent := p1\<rparr>))"
    and r1: "\<forall>z s. root_of (uf\<lparr>parent := p1\<rparr>) z s \<longleftrightarrow> root_of uf z s"
    and d1: "dom (map_of p1) = dom (map_of (parent uf))" by blast
  let ?u1 = "uf\<lparr>parent := p1\<rparr>"
  have b1: "root_of ?u1 b rb" using b r1 by simp
  from find_correct[OF b1] obtain p2 where
    f2: "find ?u1 b = Some (Inr (rb, ?u1\<lparr>parent := p2\<rparr>))"
    and r2: "\<forall>z s. root_of (?u1\<lparr>parent := p2\<rparr>) z s \<longleftrightarrow> root_of ?u1 z s"
    and d2: "dom (map_of p2) = dom (map_of (parent ?u1))" by blast
  let ?u2 = "uf\<lparr>parent := p2\<rparr>"
  have u2: "?u1\<lparr>parent := p2\<rparr> = ?u2" by simp
  have r12: "\<forall>z s. root_of ?u2 z s \<longleftrightarrow> root_of uf z s" using r1 r2 unfolding u2 by simp
  have d12: "dom (map_of (parent ?u2)) = dom (map_of (parent uf))" using d1 d2 by simp
  have inv2: "uf_inv ?u2" using inv r12 d12 unfolding uf_inv_def by (simp, metis)
  show ?thesis
  proof (cases "ra = rb")
    case True
    have "union uf a b = Some (Inr (False, ?u2))"
      using f1 f2 True unfolding union_def u2 by simp
    then show ?thesis using True inv2 r12 d12 by auto
  next
    case False
    have ra: "root_of ?u2 ra ra" and rb: "root_of ?u2 rb rb"
      using a b r12 root_of_is_root by metis+
    have "ra \<in> dom (map_of (parent ?u2))" "rb \<in> dom (map_of (parent ?u2))"
      using ra rb unfolding root_of_def by (auto dest: rep_rel_dom)
    then have rkd: "ra \<in> dom (map_of (rank uf))" "rb \<in> dom (map_of (rank uf))"
      using inv d12 unfolding uf_inv_def by auto
    then obtain rank1 rank2 where rk: "map_of (rank uf) ra = Some rank1"
      "map_of (rank uf) rb = Some rank2" by blast
    define uf3 where "uf3 =
        (if rank1 < rank2
         then ?u2\<lparr>parent := dict_setitem (parent ?u2) ra rb\<rparr>
         else if rank1 > rank2
         then ?u2\<lparr>parent := dict_setitem (parent ?u2) rb ra\<rparr>
         else ?u2\<lparr>parent := dict_setitem (parent ?u2) rb ra,
                  rank := dict_setitem (rank ?u2) ra (rank1 + 1)\<rparr>)"
    have un: "union uf a b = Some (Inr (True, uf3\<lparr>components := components uf3 - 1\<rparr>))"
      using f1 f2 False rk unfolding union_def u2 uf3_def
      by (simp add: dict_getitem_def Let_def)
    let ?uf' = "uf3\<lparr>components := components uf3 - 1\<rparr>"
    have comp: "components ?uf' = components uf - 1" by (simp add: uf3_def)
    show ?thesis
    proof (cases "rank1 < rank2")
      case True
      have "parent ?uf' = dict_setitem (parent ?u2) ra rb"
        and "dom (map_of (rank ?uf')) = dom (map_of (rank ?u2))"
        using True by (simp_all add: uf3_def)
      from link_correct[OF inv2 rb ra _ this] False
      have "uf_inv ?uf'" "dom (map_of (parent ?uf')) = dom (map_of (parent ?u2))"
        "\<forall>z s. root_of ?uf' z s \<longleftrightarrow> (\<exists>t. root_of ?u2 z t \<and> s = (if t = ra then rb else t))"
        by auto
      then show ?thesis using un comp False d12 r12 by auto
    next
      case ge: False
      have "parent ?uf' = dict_setitem (parent ?u2) rb ra"
        and "dom (map_of (rank ?uf')) = dom (map_of (rank ?u2))"
        using ge rkd by (auto simp: uf3_def dom_setitem_present)
      from link_correct[OF inv2 ra rb False this]
      have "uf_inv ?uf'" "dom (map_of (parent ?uf')) = dom (map_of (parent ?u2))"
        "\<forall>z s. root_of ?uf' z s \<longleftrightarrow> (\<exists>t. root_of ?u2 z t \<and> s = (if t = rb then ra else t))"
        by auto
      then show ?thesis using un comp False d12 r12 by auto
    qed
  qed
qed

lemma uf_init_root: "x \<in> set nodes \<Longrightarrow> root_of (uf_init nodes) x x"
  unfolding root_of_def uf_init_def
  by (auto intro!: rep_rel.rep_root simp: map_of_eq_Some_iff map_of_map_restrict restrict_map_def
      comp_def)

lemma uf_inv_init: "uf_inv (uf_init nodes)"
proof -
  have "dom (map_of (parent (uf_init nodes))) = set nodes"
    "dom (map_of (rank (uf_init nodes))) = set nodes"
    by (auto simp: uf_init_def dom_map_of_conv_image_fst image_image)
  then show ?thesis using uf_init_root[of _ nodes] unfolding uf_inv_def by auto
qed

lemma same_root_after_link:
  assumes rel: "\<forall>z s. root_of uf' z s \<longleftrightarrow> (\<exists>t. root_of uf z t \<and> s = (if t = l then w else t))"
  shows "same_root uf' x y \<longleftrightarrow>
     (\<exists>rx ry. root_of uf x rx \<and> root_of uf y ry \<and> (rx = ry \<or> (rx \<in> {w, l} \<and> ry \<in> {w, l})))"
proof
  assume "same_root uf' x y"
  then obtain r where "root_of uf' x r" "root_of uf' y r" by (auto simp: same_root_def)
  with rel obtain tx ty where t: "root_of uf x tx" "r = (if tx = l then w else tx)"
    "root_of uf y ty" "r = (if ty = l then w else ty)" by blast
  then have "tx = ty \<or> (tx \<in> {w, l} \<and> ty \<in> {w, l})" by (auto split: if_splits)
  with t show "\<exists>rx ry. root_of uf x rx \<and> root_of uf y ry \<and>
      (rx = ry \<or> (rx \<in> {w, l} \<and> ry \<in> {w, l}))" by blast
next
  assume "\<exists>rx ry. root_of uf x rx \<and> root_of uf y ry \<and>
      (rx = ry \<or> (rx \<in> {w, l} \<and> ry \<in> {w, l}))"
  then obtain rx ry where t: "root_of uf x rx" "root_of uf y ry"
    "rx = ry \<or> (rx \<in> {w, l} \<and> ry \<in> {w, l})" by blast
  have "root_of uf' x (if rx = l then w else rx)" "root_of uf' y (if ry = l then w else ry)"
    using rel t(1,2) by blast+
  moreover have "(if rx = l then w else rx) = (if ry = l then w else ry)"
    using t(3) by auto
  ultimately show "same_root uf' x y" unfolding same_root_def by metis
qed

text \<open>
  C7 (amended).  The component count starts at the number of nodes, where every node is
  its own root.  On a structure that satisfies the invariant, \<open>union(a, b)\<close> returns
  normally and its flag says whether the two roots differed.  When \<open>a\<close> and \<open>b\<close>
  already share a root it returns \<open>False\<close> and leaves the rank map, the component
  count and the root of every node unchanged (the parent map itself may change, by the
  path compression of the two \<open>find\<close> calls).  When the roots differ it returns
  \<open>True\<close>, decreases the component count by exactly one and merges the two classes
  and no others.  In both cases \<open>a\<close> and \<open>b\<close> share a root afterwards.
\<close>

theorem union_idempotent_and_merging:
  assumes "uf_inv uf" and "root_of uf a ra" and "root_of uf b rb"
  shows "uf_inv (uf_init nodes) \<and> components (uf_init nodes) = int (length nodes) \<and>
     (\<exists>uf'. union uf a b = Some (Inr (ra \<noteq> rb, uf')) \<and> uf_inv uf' \<and> same_root uf' a b \<and>
        (ra = rb \<longrightarrow> rank uf' = rank uf \<and> components uf' = components uf \<and>
                      (\<forall>z s. root_of uf' z s \<longleftrightarrow> root_of uf z s)) \<and>
        (ra \<noteq> rb \<longrightarrow> components uf' = components uf - 1 \<and>
           (\<forall>x y. same_root uf' x y \<longleftrightarrow>
              (\<exists>rx ry. root_of uf x rx \<and> root_of uf y ry \<and>
                 (rx = ry \<or> (rx \<in> {ra, rb} \<and> ry \<in> {ra, rb}))))))"
proof -
  from union_correct[OF assms] obtain uf' where
    u: "union uf a b = Some (Inr (ra \<noteq> rb, uf'))" and inv': "uf_inv uf'"
    and eff: "if ra = rb
            then rank uf' = rank uf \<and> components uf' = components uf \<and>
                 (\<forall>z s. root_of uf' z s \<longleftrightarrow> root_of uf z s)
            else components uf' = components uf - 1 \<and>
                 (\<exists>w l. ((w = ra \<and> l = rb) \<or> (w = rb \<and> l = ra)) \<and>
                    (\<forall>z s. root_of uf' z s \<longleftrightarrow>
                       (\<exists>t. root_of uf z t \<and> s = (if t = l then w else t))))"
    by blast
  have merged: "\<forall>x y. same_root uf' x y \<longleftrightarrow>
              (\<exists>rx ry. root_of uf x rx \<and> root_of uf y ry \<and>
                 (rx = ry \<or> (rx \<in> {ra, rb} \<and> ry \<in> {ra, rb})))" if ne: "ra \<noteq> rb"
  proof -
    from eff ne obtain w l where wl: "(w = ra \<and> l = rb) \<or> (w = rb \<and> l = ra)"
      and rel: "\<forall>z s. root_of uf' z s \<longleftrightarrow>
                       (\<exists>t. root_of uf z t \<and> s = (if t = l then w else t))" by auto
    have "{w, l} = {ra, rb}" using wl by auto
    then show ?thesis using same_root_after_link[OF rel] by simp
  qed
  have "same_root uf' a b"
  proof (cases "ra = rb")
    case True
    then show ?thesis using eff assms(2,3) by (auto simp: same_root_def)
  next
    case False
    then show ?thesis using merged assms(2,3) by auto
  qed
  moreover have "components (uf_init nodes) = int (length nodes)" by (simp add: uf_init_def)
  ultimately show ?thesis using u inv' eff merged uf_inv_init[of nodes] by auto
qed

lemma uf_example_roots:
  "root_of \<lparr>parent = [(1::nat, 1), (2, 1), (3, 1), (4, 3)],
            rank = [(1, 2), (2, 0), (3, 1), (4, 0)], components = 1\<rparr> x 1"
  if "x \<in> {1, 2, 3, 4}"
proof -
  let ?m = "map_of [(1::nat, 1::nat), (2, 1), (3, 1), (4, 3)]"
  have r1: "rep_rel ?m 1 1" by (rule rep_rel.rep_root) simp
  have r2: "rep_rel ?m 2 1" by (rule rep_rel.rep_step[OF _ _ r1]) simp_all
  have r3: "rep_rel ?m 3 1" by (rule rep_rel.rep_step[OF _ _ r1]) simp_all
  have r4: "rep_rel ?m 4 1" by (rule rep_rel.rep_step[OF _ _ r3]) simp_all
  show ?thesis using that r1 r2 r3 r4 by (auto simp: root_of_def)
qed

lemma uf_example_inv:
  "uf_inv \<lparr>parent = [(1::nat, 1), (2, 1), (3, 1), (4, 3)],
           rank = [(1, 2), (2, 0), (3, 1), (4, 0)], components = 1\<rparr>"
  unfolding uf_inv_def using uf_example_roots by (auto simp: dom_map_of_conv_image_fst)

lemmas uf_eval = union_def find_def find_parent.simps dict_getitem_def dict_setitem_def
  uf_init_def Let_def

theorem union_idempotent_and_merging_witness:
  "uf_inv \<lparr>parent = [(1::nat, 1), (2, 1), (3, 1), (4, 3)],
           rank = [(1, 2), (2, 0), (3, 1), (4, 0)], components = 1\<rparr> \<and>
   (\<exists>uf'. union \<lparr>parent = [(1::nat, 1), (2, 1), (3, 1), (4, 3)],
                   rank = [(1, 2), (2, 0), (3, 1), (4, 0)], components = 1\<rparr> 4 2
             = Some (Inr (False, uf')) \<and>
           rank uf' = [(1, 2), (2, 0), (3, 1), (4, 0)] \<and> components uf' = 1 \<and>
           root_of uf' 4 1 \<and> same_root uf' 4 2) \<and>
   (\<exists>uf'. union (uf_init [1::nat, 2]) 1 2 = Some (Inr (True, uf')) \<and> components uf' = 1 \<and>
           same_root uf' 1 2)"
proof -
  let ?u = "\<lparr>parent = [(1::nat, 1), (2, 1), (3, 1), (4, 3)],
             rank = [(1, 2), (2, 0), (3, 1), (4, 0)], components = 1\<rparr>"
  have a: "root_of ?u 4 1" "root_of ?u 2 1" using uf_example_roots by auto
  have b: "root_of (uf_init [1::nat, 2]) 1 1" "root_of (uf_init [1::nat, 2]) 2 2"
    using uf_init_root[of _ "[1::nat, 2]"] by auto
  from union_idempotent_and_merging[OF uf_example_inv a, of "[]"] a
  have 1: "\<exists>uf'. union ?u 4 2 = Some (Inr (False, uf')) \<and>
           rank uf' = [(1, 2), (2, 0), (3, 1), (4, 0)] \<and> components uf' = 1 \<and>
           root_of uf' 4 1 \<and> same_root uf' 4 2"
    by auto
  from union_idempotent_and_merging[OF uf_inv_init b, of "[]"]
  have 2: "\<exists>uf'. union (uf_init [1::nat, 2]) 1 2 = Some (Inr (True, uf')) \<and> components uf' = 1 \<and>
           same_root uf' 1 2"
    by (auto simp: uf_init_def)
  from 1 2 uf_example_inv show ?thesis by blast
qed

theorem union_changes_parent_counterexample:
  "union (uf_init [1::nat, 2, 3, 4]) 1 2
     = Some (Inr (True, \<lparr>parent = [(1, 1), (2, 1), (3, 3), (4, 4)],
                         rank = [(1, 1), (2, 0), (3, 0), (4, 0)], components = 3\<rparr>)) \<and>
   union \<lparr>parent = [(1::nat, 1), (2, 1), (3, 3), (4, 4)],
          rank = [(1, 1), (2, 0), (3, 0), (4, 0)], components = 3\<rparr> 3 4
     = Some (Inr (True, \<lparr>parent = [(1, 1), (2, 1), (3, 3), (4, 3)],
                         rank = [(1, 1), (2, 0), (3, 1), (4, 0)], components = 2\<rparr>)) \<and>
   union \<lparr>parent = [(1::nat, 1), (2, 1), (3, 3), (4, 3)],
          rank = [(1, 1), (2, 0), (3, 1), (4, 0)], components = 2\<rparr> 1 3
     = Some (Inr (True, \<lparr>parent = [(1, 1), (2, 1), (3, 1), (4, 3)],
                         rank = [(1, 2), (2, 0), (3, 1), (4, 0)], components = 1\<rparr>)) \<and>
   union \<lparr>parent = [(1::nat, 1), (2, 1), (3, 1), (4, 3)],
          rank = [(1, 2), (2, 0), (3, 1), (4, 0)], components = 1\<rparr> 4 2
     = Some (Inr (False, \<lparr>parent = [(1, 1), (2, 1), (3, 1), (4, 1)],
                          rank = [(1, 2), (2, 0), (3, 1), (4, 0)], components = 1\<rparr>)) \<and>
   [(1::nat, 1::nat), (2, 1), (3, 1), (4, 1)] \<noteq> [(1, 1), (2, 1), (3, 1), (4, 3)]"
  by (simp add: uf_eval)

section \<open>Traversals: every variant visits exactly the reachable nodes\<close>





subsection \<open>Recursive DFS\<close>



subsection \<open>Iterative DFS\<close>




subsection \<open>BFS\<close>





section \<open>Unweighted shortest path: the first path found has the fewest edges\<close>

lemma is_path_append_one:
  "q \<noteq> [] \<Longrightarrow> is_path graph (q @ [z]) \<longleftrightarrow> is_path graph q \<and> z \<in> set (dict_get graph (last q) [])"
proof (induction graph q rule: is_path.induct)
  case (1 graph)
  then show ?case by simp
next
  case (2 graph x)
  show ?case by simp
next
  case (3 graph x y rest)
  then show ?case by auto
qed

lemma path_between_single: "path_between graph start start [start]"
  by (simp add: path_between_def)

lemma path_between_snoc:
  assumes "path_between graph start u p" "w \<in> set (dict_get graph u [])"
  shows "path_between graph start w (p @ [w])"
proof -
  have ne: "p \<noteq> []" using assms(1) by (auto simp: path_between_def)
  then show ?thesis using assms by (simp add: path_between_def is_path_append_one)
qed

lemma label_lower_bound:
  assumes s: "start \<in> V" "D start = 0"
    and cl: "\<forall>u \<in> V. D u < B \<longrightarrow> (\<forall>w \<in> set (dict_get graph u []). w \<in> V \<and> D w \<le> Suc (D u))"
  shows "path_between graph start x q \<Longrightarrow> length q \<le> Suc B \<Longrightarrow> x \<in> V \<and> Suc (D x) \<le> length q"
proof (induction q arbitrary: x rule: rev_induct)
  case Nil
  then show ?case by (simp add: path_between_def)
next
  case (snoc z q)
  have xz: "x = z" using snoc.prems(1) by (simp add: path_between_def)
  show ?case
  proof (cases "q = []")
    case True
    then have "x = start" using snoc.prems(1) by (auto simp: path_between_def)
    then show ?thesis using s by simp
  next
    case False
    then have pq: "path_between graph start (last q) q" and zn: "z \<in> set (dict_get graph (last q) [])"
      using snoc.prems(1) by (auto simp: path_between_def is_path_append_one)
    have "length q \<le> Suc B" using snoc.prems(2) by simp
    from snoc.IH[OF pq this] have lq: "last q \<in> V" "Suc (D (last q)) \<le> length q" by auto
    then have "D (last q) < B" using snoc.prems(2) by simp
    with cl lq(1) zn have "z \<in> V" "D z \<le> Suc (D (last q))" by blast+
    then show ?thesis using xz lq(2) by simp
  qed
qed

lemma bfs_path_inv_init:
  "start \<noteq> target \<Longrightarrow> bfs_path_inv graph start target (\<lambda>_. 0) [(start, [start])] {start}"
  by (simp add: bfs_path_inv_def path_between_single)

lemma bfs_path_inv_step:
  assumes inv: "bfs_path_inv graph start target D ((u, p) # rest) visited"
    and nt: "target \<notin> set (dict_get graph u [])"
    and new: "set new \<subseteq> set (dict_get graph u [])" "set new \<inter> visited = {}"
      "set (dict_get graph u []) \<subseteq> visited \<union> set new"
    and D': "D' = (\<lambda>x. if x \<in> set new then Suc (D u) else D x)"
  shows "bfs_path_inv graph start target D'
           (rest @ map (\<lambda>w. (w, p @ [w])) new) (visited \<union> set new)"
proof -
  let ?Q = "rest @ map (\<lambda>w. (w, p @ [w])) new"
  let ?V = "visited \<union> set new"
  from inv have sv: "start \<in> visited" and d0: "D start = 0" and tv: "target \<notin> visited"
    and qe: "\<forall>(v, p) \<in> set ((u, p) # rest). v \<in> visited \<and> path_between graph start v p \<and> length p = Suc (D v)"
    and so: "sorted (map (\<lambda>(v, p). D v) ((u, p) # rest))"
    and bd: "\<forall>(v, p) \<in> set ((u, p) # rest). \<forall>x \<in> visited. D x \<le> Suc (D v)"
    and cl: "\<forall>x \<in> visited. x \<in> fst ` set ((u, p) # rest) \<or>
        (\<forall>w \<in> set (dict_get graph x []). w \<in> visited \<and> D w \<le> Suc (D x))"
    unfolding bfs_path_inv_def by blast+
  have Dold: "\<And>x. x \<in> visited \<Longrightarrow> D' x = D x" using new(2) D' by auto
  have Dnew: "\<And>x. x \<in> set new \<Longrightarrow> D' x = Suc (D u)" using D' by auto
  have Dall: "\<And>x. x \<in> visited \<union> set new \<Longrightarrow> D' x \<le> Suc (D u)"
    using Dold Dnew inv unfolding bfs_path_inv_def by fastforce
  have uv: "u \<in> visited" and up: "path_between graph start u p" and lp: "length p = Suc (D u)"
    using qe by auto
  have rest_v: "\<And>v pv. (v, pv) \<in> set rest \<Longrightarrow> v \<in> visited \<and> path_between graph start v pv \<and>
      length pv = Suc (D v) \<and> D u \<le> D v"
    using qe so by auto
  have bdu: "\<And>x. x \<in> visited \<Longrightarrow> D x \<le> Suc (D u)" using bd by auto
  have 1: "start \<in> ?V" using sv by simp
  have 2: "D' start = 0" using Dold[OF sv] d0 by simp
  have 3: "target \<notin> ?V" using tv nt new(1) by auto
  have 4: "\<forall>(v, pv) \<in> set ?Q. v \<in> ?V \<and> path_between graph start v pv \<and> length pv = Suc (D' v)"
  proof (clarify)
    fix v pv assume "(v, pv) \<in> set ?Q"
    then consider "(v, pv) \<in> set rest" | "v \<in> set new" "pv = p @ [v]" by auto
    then show "v \<in> ?V \<and> path_between graph start v pv \<and> length pv = Suc (D' v)"
    proof cases
      case 1
      then show ?thesis using rest_v[OF 1] Dold by auto
    next
      case 2
      then have "v \<in> set (dict_get graph u [])" using new(1) by auto
      then show ?thesis using 2 path_between_snoc[OF up] lp Dnew by simp
    qed
  qed
  have mrest: "map (\<lambda>(v, p). D' v) rest = map (\<lambda>(v, p). D v) rest"
    using rest_v Dold by (auto intro!: map_cong)
  have mnew: "map (\<lambda>(v, p). D' v) (map (\<lambda>w. (w, p @ [w])) new) = map (\<lambda>w. Suc (D u)) new"
    using Dnew by (simp add: comp_def)
  have 5: "sorted (map (\<lambda>(v, p). D' v) ?Q)"
  proof -
    have "sorted (map (\<lambda>(v, p). D v) rest)" using so by simp
    moreover have "sorted (map (\<lambda>w. Suc (D u)) new)" by (induction new) auto
    moreover have "\<forall>a \<in> set (map (\<lambda>(v, p). D v) rest). \<forall>b \<in> set (map (\<lambda>w. Suc (D u)) new). a \<le> b"
      using rest_v bdu by auto
    ultimately show ?thesis
      unfolding map_append mrest mnew by (simp add: sorted_append)
  qed
  have 6: "\<forall>(v, pv) \<in> set ?Q. \<forall>x \<in> ?V. D' x \<le> Suc (D' v)"
  proof (clarify)
    fix v pv x assume vq: "(v, pv) \<in> set ?Q" and xv: "x \<in> ?V"
    have xle: "D' x \<le> Suc (D u)" using xv Dall by blast
    from vq consider "(v, pv) \<in> set rest" | "v \<in> set new" by auto
    then show "D' x \<le> Suc (D' v)"
    proof cases
      case 1
      then have "D u \<le> D v" "D' v = D v" using rest_v[OF 1] Dold by auto
      then show ?thesis using xle by simp
    next
      case 2
      then show ?thesis using xle Dnew by simp
    qed
  qed
  have 7: "\<forall>x \<in> ?V. x \<in> fst ` set ?Q \<or>
        (\<forall>w \<in> set (dict_get graph x []). w \<in> ?V \<and> D' w \<le> Suc (D' x))"
  proof
    fix x assume xv: "x \<in> ?V"
    show "x \<in> fst ` set ?Q \<or> (\<forall>w \<in> set (dict_get graph x []). w \<in> ?V \<and> D' w \<le> Suc (D' x))"
    proof (cases "x \<in> fst ` set ?Q")
      case True
      then show ?thesis by simp
    next
      case False
      have xn: "x \<notin> set new"
      proof
        assume "x \<in> set new"
        then have "(x, p @ [x]) \<in> set ?Q" by simp
        then have "x \<in> fst ` set ?Q" by force
        with False show False by simp
      qed
      have xr: "x \<notin> fst ` set rest" using False by auto
      from xv xn have xvis: "x \<in> visited" by simp
      have "\<forall>w \<in> set (dict_get graph x []). w \<in> ?V \<and> D' w \<le> Suc (D' x)"
      proof (cases "x = u")
        case True
        show ?thesis
        proof
          fix w assume "w \<in> set (dict_get graph x [])"
          then have "w \<in> ?V" using new(3) True by auto
          moreover have "D' w \<le> Suc (D u)" using \<open>w \<in> ?V\<close> Dall by blast
          ultimately show "w \<in> ?V \<and> D' w \<le> Suc (D' x)" using True Dold[OF uv] by simp
        qed
      next
        case False
        with xr have "x \<notin> fst ` set ((u, p) # rest)" by auto
        with cl xvis have c: "\<forall>w \<in> set (dict_get graph x []). w \<in> visited \<and> D w \<le> Suc (D x)"
          by blast
        show ?thesis
        proof
          fix w assume "w \<in> set (dict_get graph x [])"
          with c have "w \<in> visited" "D w \<le> Suc (D x)" by auto
          then show "w \<in> ?V \<and> D' w \<le> Suc (D' x)" using Dold xvis by simp
        qed
      qed
      then show ?thesis by simp
    qed
  qed
  show ?thesis unfolding bfs_path_inv_def using 1 2 3 4 5 6 7 by blast
qed

lemma bfs_path_inv_found_minimal:
  assumes inv: "bfs_path_inv graph start target D ((u, p) # rest) visited"
    and q: "path_between graph start target q"
  shows "Suc (length p) \<le> length q"
proof (rule ccontr)
  assume "\<not> Suc (length p) \<le> length q"
  from inv have sv: "start \<in> visited" and d0: "D start = 0" and tv: "target \<notin> visited"
    and lp: "length p = Suc (D u)"
    and so: "sorted (map (\<lambda>(v, p). D v) ((u, p) # rest))"
    and cl: "\<forall>x \<in> visited. x \<in> fst ` set ((u, p) # rest) \<or>
        (\<forall>w \<in> set (dict_get graph x []). w \<in> visited \<and> D w \<le> Suc (D x))"
    unfolding bfs_path_inv_def by auto
  have len: "length q \<le> Suc (D u)" using \<open>\<not> Suc (length p) \<le> length q\<close> lp by simp
  have "\<forall>x \<in> visited. D x < D u \<longrightarrow> (\<forall>w \<in> set (dict_get graph x []). w \<in> visited \<and> D w \<le> Suc (D x))"
  proof (rule ballI, rule impI)
    fix x assume x: "x \<in> visited" "D x < D u"
    have "x \<notin> fst ` set ((u, p) # rest)"
    proof
      assume "x \<in> fst ` set ((u, p) # rest)"
      then have "D u \<le> D x" using so by auto
      with x(2) show False by simp
    qed
    with cl x(1) show "\<forall>w \<in> set (dict_get graph x []). w \<in> visited \<and> D w \<le> Suc (D x)" by blast
  qed
  from label_lower_bound[OF sv d0 this q len] tv show False by simp
qed

lemma bfs_path_inv_empty_no_path:
  assumes inv: "bfs_path_inv graph start target D [] visited"
  shows "\<not> path_between graph start target q"
proof
  assume q: "path_between graph start target q"
  from inv have sv: "start \<in> visited" and d0: "D start = 0" and tv: "target \<notin> visited"
    and cl: "\<forall>x \<in> visited. \<forall>w \<in> set (dict_get graph x []). w \<in> visited \<and> D w \<le> Suc (D x)"
    unfolding bfs_path_inv_def by auto
  from cl have "\<forall>x \<in> visited. D x < length q \<longrightarrow>
      (\<forall>w \<in> set (dict_get graph x []). w \<in> visited \<and> D w \<le> Suc (D x))" by blast
  from label_lower_bound[OF sv d0 this q] tv show False by simp
qed

lemma bfs_shortest_path_while_correct:
  assumes "bfs_path_inv graph start target D queue visited"
  shows "case bfs_shortest_path_while graph target queue visited of
           None \<Rightarrow> (\<forall>q. \<not> path_between graph start target q)
         | Some found \<Rightarrow> path_between graph start target found \<and>
                          (\<forall>q. path_between graph start target q \<longrightarrow> length found \<le> length q)"
  using assms
proof (induction graph target queue visited arbitrary: D rule: bfs_shortest_path_while.induct)
  case (1 graph target visited)
  then show ?case using bfs_path_inv_empty_no_path by fastforce
next
  case (2 graph target node path queue visited)
  from bfs_shortest_path_for_effect[of target path "dict_get graph node []" visited queue]
  obtain new where eff: "bfs_shortest_path_for target path (dict_get graph node []) (visited, queue) =
           (if target \<in> set (dict_get graph node []) then Inl (path @ [target])
            else Inr (visited \<union> set new, queue @ map (\<lambda>w. (w, path @ [w])) new))"
    and new: "set new \<subseteq> set (dict_get graph node [])" "set new \<inter> visited = {}"
      "target \<notin> set (dict_get graph node []) \<longrightarrow> set (dict_get graph node []) \<subseteq> visited \<union> set new"
    by blast
  show ?case
  proof (cases "target \<in> set (dict_get graph node [])")
    case True
    have np: "path_between graph start node path"
      using "2.prems" by (auto simp: bfs_path_inv_def)
    have "path_between graph start target (path @ [target])"
      by (rule path_between_snoc[OF np True])
    moreover have "\<forall>q. path_between graph start target q \<longrightarrow> length (path @ [target]) \<le> length q"
      using bfs_path_inv_found_minimal[OF "2.prems"] by simp
    ultimately show ?thesis using eff True by simp
  next
    case False
    let ?state = "(visited \<union> set new, queue @ map (\<lambda>w. (w, path @ [w])) new)"
    have e: "bfs_shortest_path_for target path (dict_get graph node []) (visited, queue) = Inr ?state"
      using eff False by simp
    have "bfs_path_inv graph start target (\<lambda>x. if x \<in> set new then Suc (D node) else D x)
            (snd ?state) (fst ?state)"
      using bfs_path_inv_step[OF "2.prems" False new(1,2) _ refl] new(3) False by simp
    from "2.IH"[OF e this] show ?thesis using e by simp
  qed
qed

text \<open>
  C2.  The BFS path finder returns \<open>[start]\<close> when start and target coincide; whenever
  some path from start to target exists it returns such a path, and no path between
  them has fewer nodes (hence fewer edges); when no path exists it returns \<open>None\<close>.
  It has no failure branch: every read of the graph is \<open>graph.get(node, [])\<close>.  The
  three path finders of the repository compute the same function.
\<close>

theorem bfs_shortest_path_minimal:
  "(start = target \<longrightarrow> bfs_shortest_path graph start target = Some [start]) \<and>
   ((\<exists>q. path_between graph start target q) \<longrightarrow>
      (\<exists>p. bfs_shortest_path graph start target = Some p \<and> path_between graph start target p \<and>
           (\<forall>q. path_between graph start target q \<longrightarrow> length p \<le> length q))) \<and>
   ((\<forall>q. \<not> path_between graph start target q) \<longrightarrow> bfs_shortest_path graph start target = None) \<and>
   bfs_find_shortest_path graph start target = bfs_shortest_path graph start target \<and>
   find_path g start target = bfs_shortest_path (adjacency_list g) start target"
proof -
  have same: "bfs_find_shortest_path graph start target = bfs_shortest_path graph start target"
    "find_path g start target = bfs_shortest_path (adjacency_list g) start target"
    by (simp_all add: bfs_find_shortest_path_def find_path_def bfs_shortest_path_def)
  show ?thesis
  proof (cases "start = target")
    case True
    have "path_between graph start target [start]" using True by (simp add: path_between_def)
    moreover have "\<forall>q. path_between graph start target q \<longrightarrow> length [start] \<le> length q"
      by (auto simp: path_between_def Suc_le_eq)
    ultimately show ?thesis using True same by (auto simp: bfs_shortest_path_def)
  next
    case False
    have r: "bfs_shortest_path graph start target
               = bfs_shortest_path_while graph target [(start, [start])] {start}"
      using False by (simp add: bfs_shortest_path_def)
    from bfs_shortest_path_while_correct[OF bfs_path_inv_init[OF False, of graph]]
    show ?thesis unfolding r[symmetric] using False same
      by (cases "bfs_shortest_path graph start target") auto
  qed
qed

theorem bfs_shortest_path_minimal_witness:
  "path_between [(0::nat, [1, 3]), (1, [2]), (3, [4])] 0 4 [0, 3, 4] \<and>
   bfs_shortest_path [(0::nat, [1, 3]), (1, [2]), (3, [4])] 0 4 = Some [0, 3, 4] \<and>
   bfs_shortest_path [(0::nat, [1, 3]), (1, [2]), (3, [4])] 2 2 = Some [2] \<and>
   bfs_shortest_path [(0::nat, [1, 3]), (1, [2]), (3, [4])] 4 0 = None \<and>
   find_path \<lparr>adjacency_list = [(0::nat, [1, 3]), (1, [2]), (3, [4])], directed = True\<rparr> 0 4
     = Some [0, 3, 4]"
proof -
  let ?g = "[(0::nat, [1, 3]), (1, [2]), (3, [4])]"
  have p: "path_between ?g 0 4 [0, 3, 4]"
    by (simp add: path_between_def dict_get_def)
  have r: "bfs_shortest_path ?g 0 4 = Some [0, 3, 4]"
    by (simp add: bfs_shortest_path_def dict_get_def)
  have np: "\<forall>q. \<not> path_between ?g 4 0 q"
  proof (rule allI, rule notI)
    fix q assume "path_between ?g 4 0 q"
    then show False
      by (cases q; cases "tl q") (auto simp: path_between_def dict_get_def)
  qed
  from bfs_shortest_path_minimal[of 0 4 ?g "\<lparr>adjacency_list = ?g, directed = True\<rparr>"] p r
  have a: "find_path \<lparr>adjacency_list = ?g, directed = True\<rparr> 0 4 = Some [0, 3, 4]" by simp
  from bfs_shortest_path_minimal[of 2 2 ?g]
  have b: "bfs_shortest_path ?g 2 2 = Some [2]" by simp
  from bfs_shortest_path_minimal[of 4 0 ?g] np
  have c: "bfs_shortest_path ?g 4 0 = None" by blast
  from p r a b c show ?thesis by simp
qed

section \<open>Dijkstra: early exit against the all-nodes mode\<close>
































end
